theory Spec2Isabelle
  imports Complex_Main
begin

section \<open>Python values and exceptions\<close>

text \<open>
  The functions of \<^verbatim>\<open>texar/torch/run/executor_utils.py\<close> dispatch on the runtime type of
  their arguments (\<^verbatim>\<open>isinstance(ds, dict)\<close>, \<^verbatim>\<open>isinstance(item, tuple)\<close>, ...), so the
  values they receive are modelled by one datatype that carries the runtime tag.
  The parameter \<open>'v\<close> is the type of the values a metric reports.
\<close>

datatype dict_kind = PlainDict | OrderedDictKind

text \<open>
  The class \<^verbatim>\<open>Metric\<close> lives in \<^verbatim>\<open>texar.torch.run.metric\<close>; this module reads the
  attributes \<^verbatim>\<open>pred_name\<close>, \<^verbatim>\<open>label_name\<close>, calls \<^verbatim>\<open>value()\<close> and \<^verbatim>\<open>better(a, b)\<close>,
  and inspects the concrete class (\<^verbatim>\<open>type(metric)\<close>, \<^verbatim>\<open>__class__.__name__\<close>).
\<close>

record 'v metric =
  class_module :: string
  class_name :: string
  pred_name :: string
  label_name :: "string option"
  cur_value :: 'v
  better :: "'v \<Rightarrow> 'v \<Rightarrow> bool option"

datatype 'v pyval =
    PyNone
  | PyInt int
  | PyStr string
  | PyTuple "'v pyval list"
  | PyList "'v pyval list"
  | PyDict dict_kind "('v pyval \<times> 'v pyval) list"
  | PyMetric "'v metric"
  | PyObject string string

text \<open>
  \<open>PyObject module name\<close> is an instance of any other class, one that is not a subclass of
  \<^verbatim>\<open>tuple\<close>, \<^verbatim>\<open>list\<close>, \<^verbatim>\<open>dict\<close> or \<^verbatim>\<open>Metric\<close> and has no attribute \<^verbatim>\<open>pred_name\<close>.
  A dictionary keeps its items in insertion order; \<open>dict_kind\<close> records whether it is an
  \<^verbatim>\<open>OrderedDict\<close>.
\<close>

datatype error =
    ValueError string
  | TypeError string
  | KeyError
  | AttributeError string
  | ZeroDivisionError
  | OverflowError

definition bind_err :: "error + 'a \<Rightarrow> ('a \<Rightarrow> error + 'b) \<Rightarrow> error + 'b" where
  "bind_err r f = (case r of Inl e \<Rightarrow> Inl e | Inr x \<Rightarrow> f x)"

text \<open>Hashability, as \<^verbatim>\<open>name not in counter\<close> and \<^verbatim>\<open>ret_dict[name] = ...\<close> require it.\<close>

fun hashable :: "'v pyval \<Rightarrow> bool" where
  "hashable PyNone = True"
| "hashable (PyInt i) = True"
| "hashable (PyStr s) = True"
| "hashable (PyTuple xs) = list_all hashable xs"
| "hashable (PyList xs) = False"
| "hashable (PyDict k kvs) = False"
| "hashable (PyMetric m) = True"
| "hashable (PyObject md c) = True"

text \<open>\<^verbatim>\<open>type(x).__module__\<close> and \<^verbatim>\<open>type(x).__name__\<close>.\<close>

fun type_module :: "'v pyval \<Rightarrow> string" where
  "type_module (PyDict OrderedDictKind kvs) = ''collections''"
| "type_module (PyMetric m) = class_module m"
| "type_module (PyObject md c) = md"
| "type_module v = ''builtins''"

fun type_name :: "'v pyval \<Rightarrow> string" where
  "type_name PyNone = ''NoneType''"
| "type_name (PyInt i) = ''int''"
| "type_name (PyStr s) = ''str''"
| "type_name (PyTuple xs) = ''tuple''"
| "type_name (PyList xs) = ''list''"
| "type_name (PyDict PlainDict kvs) = ''dict''"
| "type_name (PyDict OrderedDictKind kvs) = ''OrderedDict''"
| "type_name (PyMetric m) = class_name m"
| "type_name (PyObject md c) = c"

text \<open>\<^verbatim>\<open>str(type(x))\<close>, the text \<^verbatim>\<open>f"{type(metric)}"\<close> inserts.\<close>

definition type_repr :: "'v pyval \<Rightarrow> string" where
  "type_repr v =
     ''<class '' @ [CHR 0x27] @
     (if type_module v = ''builtins'' then type_name v
      else type_module v @ ''.'' @ type_name v) @ [CHR 0x27] @ ''>''"

text \<open>\<^verbatim>\<open>str(n)\<close> for a non-negative integer.\<close>

definition digit_char :: "nat \<Rightarrow> char" where
  "digit_char d = ''0123456789'' ! d"

function str_nat :: "nat \<Rightarrow> string" where
  "str_nat n = (if n < 10 then [digit_char n] else str_nat (n div 10) @ [digit_char (n mod 10)])"
  by pat_completeness auto
termination
  by (relation "measure (\<lambda>n. n)") auto

declare str_nat.simps [simp del]

section \<open>Insertion-ordered dictionaries\<close>

text \<open>
  An \<^verbatim>\<open>OrderedDict\<close> is the list of its items in iteration order.
  \<^verbatim>\<open>d[k] = v\<close> overwrites the value in place when \<open>k\<close> is present and appends otherwise;
  \<^verbatim>\<open>del d[k]\<close> raises \<^verbatim>\<open>KeyError\<close> when \<open>k\<close> is absent.
\<close>

fun od_set :: "'k \<Rightarrow> 'a \<Rightarrow> ('k \<times> 'a) list \<Rightarrow> ('k \<times> 'a) list" where
  "od_set k v [] = [(k, v)]"
| "od_set k v ((k', v') # r) = (if k' = k then (k', v) # r else (k', v') # od_set k v r)"

definition od_get :: "('k \<times> 'a) list \<Rightarrow> 'k \<Rightarrow> error + 'a" where
  "od_get d k = (case map_of d k of None \<Rightarrow> Inl KeyError | Some v \<Rightarrow> Inr v)"

definition od_del :: "'k \<Rightarrow> ('k \<times> 'a) list \<Rightarrow> error + ('k \<times> 'a) list" where
  "od_del k d = (if k \<in> fst ` set d then Inr (filter (\<lambda>kv. fst kv \<noteq> k) d) else Inl KeyError)"

text \<open>\<^verbatim>\<open>OrderedDict(items)\<close>: the items are inserted one by one.\<close>

definition od_of_items :: "('k \<times> 'a) list \<Rightarrow> ('k \<times> 'a) list" where
  "od_of_items kvs = fold (\<lambda>kv d. od_set (fst kv) (snd kv) d) kvs []"

section \<open>The registry normalizer\<close>

type_synonym 'v registry = "('v pyval \<times> 'v pyval) list"

text \<open>A \<^verbatim>\<open>collections.Counter\<close>: the keys present and their counts.\<close>

type_synonym 'v counter = "'v pyval \<Rightarrow> nat option"

text \<open>\<^verbatim>\<open>counter.update([name])\<close>.\<close>

definition counter_update :: "'v counter \<Rightarrow> 'v pyval \<Rightarrow> 'v counter" where
  "counter_update counter name =
     counter(name \<mapsto> (case counter name of None \<Rightarrow> 1 | Some c \<Rightarrow> c + 1))"

text \<open>
  Lines 61-64 of the source: a tuple is unpacked by \<^verbatim>\<open>name, item = item\<close>, which raises
  \<^verbatim>\<open>ValueError\<close> unless it has exactly two components; any other item is named by
  \<^verbatim>\<open>default_name_fn(idx, item)\<close>. The naming functions are Python callables and may raise.
\<close>

definition unpack_item ::
  "(nat \<Rightarrow> 'v pyval \<Rightarrow> error + 'v pyval) \<Rightarrow> nat \<Rightarrow> 'v pyval \<Rightarrow> error + ('v pyval \<times> 'v pyval)" where
  "unpack_item default_name_fn idx item =
     (case item of
        PyTuple ys \<Rightarrow>
          (case ys of
             [name, v] \<Rightarrow> Inr (name, v)
           | _ \<Rightarrow> Inl (ValueError (if length ys < 2 then ''not enough values to unpack''
                                   else ''too many values to unpack'')))
      | _ \<Rightarrow> bind_err (default_name_fn idx item) (\<lambda>name. Inr (name, item)))"

text \<open>\<^verbatim>\<open>ret_dict[key] = item\<close>, where the key must be hashable.\<close>

definition store :: "'v pyval \<Rightarrow> 'v pyval \<Rightarrow> 'v registry \<Rightarrow> error + 'v registry" where
  "store key item ret_dict =
     (if hashable key then Inr (od_set key item ret_dict) else Inl (TypeError ''unhashable type''))"

text \<open>
  Lines 69-72: the branch \<^verbatim>\<open>if cnt == 1\<close>, which moves the entry stored under \<open>name\<close> to
  the key \<^verbatim>\<open>unambiguous_name_fn(name, prev_item, 1)\<close>.
\<close>

definition rename_first ::
  "('v pyval \<Rightarrow> 'v pyval \<Rightarrow> nat \<Rightarrow> error + 'v pyval) \<Rightarrow> 'v pyval \<Rightarrow> 'v registry \<Rightarrow>
     error + 'v registry" where
  "rename_first unambiguous_name_fn name ret_dict =
     bind_err (od_get ret_dict name) (\<lambda>prev_item.
     bind_err (unambiguous_name_fn name prev_item 1) (\<lambda>key1.
     bind_err (store key1 prev_item ret_dict) (\<lambda>ret1.
     od_del name ret1)))"

text \<open>Lines 65-73: one pass of the loop body on the resolved \<open>(name, item)\<close>.\<close>

definition insert_item ::
  "('v pyval \<Rightarrow> 'v pyval \<Rightarrow> nat \<Rightarrow> error + 'v pyval) \<Rightarrow> 'v registry \<Rightarrow> 'v counter \<Rightarrow>
     'v pyval \<Rightarrow> 'v pyval \<Rightarrow> error + 'v registry" where
  "insert_item unambiguous_name_fn ret_dict counter name item =
     (if \<not> hashable name then Inl (TypeError ''unhashable type'')
      else case counter name of
        None \<Rightarrow> Inr (od_set name item ret_dict)
      | Some cnt \<Rightarrow>
          bind_err (if cnt = 1 then rename_first unambiguous_name_fn name ret_dict
                    else Inr ret_dict) (\<lambda>ret1.
          bind_err (unambiguous_name_fn name item (cnt + 1)) (\<lambda>key.
          store key item ret1)))"

text \<open>Lines 60-74: the loop over \<^verbatim>\<open>enumerate(xs)\<close>, started at index \<open>idx\<close>.\<close>

fun to_dict_loop ::
  "('v pyval \<Rightarrow> 'v pyval \<Rightarrow> nat \<Rightarrow> error + 'v pyval) \<Rightarrow> (nat \<Rightarrow> 'v pyval \<Rightarrow> error + 'v pyval) \<Rightarrow>
     nat \<Rightarrow> 'v pyval list \<Rightarrow> 'v registry \<Rightarrow> 'v counter \<Rightarrow> error + 'v registry" where
  "to_dict_loop unambiguous_name_fn default_name_fn idx [] ret_dict counter = Inr ret_dict"
| "to_dict_loop unambiguous_name_fn default_name_fn idx (x # xs) ret_dict counter =
     bind_err (unpack_item default_name_fn idx x) (\<lambda>(name, item).
     bind_err (insert_item unambiguous_name_fn ret_dict counter name item) (\<lambda>ret1.
     to_dict_loop unambiguous_name_fn default_name_fn (Suc idx) xs ret1
       (counter_update counter name)))"

text \<open>
  The function \<^verbatim>\<open>_to_dict\<close> of the source (an Isabelle name cannot start with an
  underscore).
\<close>

definition priv_to_dict ::
  "'v pyval \<Rightarrow> ('v pyval \<Rightarrow> 'v pyval \<Rightarrow> nat \<Rightarrow> error + 'v pyval) \<Rightarrow>
     (nat \<Rightarrow> 'v pyval \<Rightarrow> error + 'v pyval) \<Rightarrow> error + 'v registry" where
  "priv_to_dict ds unambiguous_name_fn default_name_fn =
     (case ds of
        PyNone \<Rightarrow> Inr []
      | PyDict k kvs \<Rightarrow> Inr (od_of_items kvs)
      | PyList xs \<Rightarrow> to_dict_loop unambiguous_name_fn default_name_fn 0 xs [] Map.empty
      | _ \<Rightarrow> to_dict_loop unambiguous_name_fn default_name_fn 0 [ds] [] Map.empty)"

text \<open>
  \<^verbatim>\<open>f"{name}"\<close> for a name: a string is inserted as it is, an integer in decimal.
  How Python prints the other values is not part of this module and is the parameter
  \<open>str_of\<close>.
\<close>

definition format_name :: "('v pyval \<Rightarrow> string) \<Rightarrow> 'v pyval \<Rightarrow> string" where
  "format_name str_of name =
     (case name of
        PyStr s \<Rightarrow> s
      | PyNone \<Rightarrow> ''None''
      | PyInt i \<Rightarrow> (if i < 0 then ''-'' @ str_nat (nat (- i)) else str_nat (nat i))
      | _ \<Rightarrow> str_of name)"

text \<open>The two functions nested in \<^verbatim>\<open>to_dict\<close>.\<close>

definition dict_unambiguous_name_fn ::
  "('v pyval \<Rightarrow> string) \<Rightarrow> 'v pyval \<Rightarrow> 'v pyval \<Rightarrow> nat \<Rightarrow> error + 'v pyval" where
  "dict_unambiguous_name_fn str_of name unused_item cnt =
     Inr (PyStr (format_name str_of name @ ''.'' @ str_nat cnt))"

definition dict_default_name_fn :: "string option \<Rightarrow> nat \<Rightarrow> 'v pyval \<Rightarrow> error + 'v pyval" where
  "dict_default_name_fn default_name idx unused_item =
     (case default_name of
        Some s \<Rightarrow> Inr (PyStr s)
      | None \<Rightarrow> Inr (PyStr (str_nat idx)))"

definition to_dict :: "('v pyval \<Rightarrow> string) \<Rightarrow> 'v pyval \<Rightarrow> string option \<Rightarrow> error + 'v registry" where
  "to_dict str_of xs default_name =
     priv_to_dict xs (dict_unambiguous_name_fn str_of) (dict_default_name_fn default_name)"

text \<open>
  \<^verbatim>\<open>to_metric_dict\<close>. Its \<^verbatim>\<open>unambiguous_name_fn\<close> reads \<^verbatim>\<open>metric.pred_name\<close>, which
  raises \<^verbatim>\<open>AttributeError\<close> on a value without that attribute.
\<close>

definition metric_unambiguous_name_fn ::
  "('v pyval \<Rightarrow> string) \<Rightarrow> 'v pyval \<Rightarrow> 'v pyval \<Rightarrow> nat \<Rightarrow> error + 'v pyval" where
  "metric_unambiguous_name_fn str_of name metric unused_cnt =
     (case metric of
        PyMetric m \<Rightarrow>
          (let new_name = format_name str_of name @ ''_'' @ pred_name m
           in Inr (PyStr (case label_name m of
                            None \<Rightarrow> new_name
                          | Some l \<Rightarrow> new_name @ ''_'' @ l)))
      | _ \<Rightarrow> Inl (AttributeError ''pred_name''))"

definition metric_default_name_fn :: "nat \<Rightarrow> 'v pyval \<Rightarrow> error + 'v pyval" where
  "metric_default_name_fn unused_idx metric = Inr (PyStr (type_name metric))"

definition is_plain_dict :: "'v pyval \<Rightarrow> bool" where
  "is_plain_dict v = (case v of PyDict PlainDict kvs \<Rightarrow> True | _ \<Rightarrow> False)"

definition is_Metric :: "'v pyval \<Rightarrow> bool" where
  "is_Metric v = (case v of PyMetric m \<Rightarrow> True | _ \<Rightarrow> False)"

text \<open>Lines 104-107: the first value that is not a \<^verbatim>\<open>Metric\<close> raises.\<close>

fun check_metrics :: "'v pyval list \<Rightarrow> error + unit" where
  "check_metrics [] = Inr ()"
| "check_metrics (metric # rest) =
     (if \<not> is_Metric metric
      then Inl (ValueError (''All metrics must be of class Metric, but found '' @ type_repr metric))
      else check_metrics rest)"

definition to_metric_dict :: "('v pyval \<Rightarrow> string) \<Rightarrow> 'v pyval \<Rightarrow> error + 'v registry" where
  "to_metric_dict str_of metrics =
     (if is_plain_dict metrics
      then Inl (ValueError ''Metrics dictionary must be of type OrderedDict'')
      else bind_err (priv_to_dict metrics (metric_unambiguous_name_fn str_of) metric_default_name_fn)
             (\<lambda>metric_dict.
           bind_err (check_metrics (map snd metric_dict)) (\<lambda>_. Inr metric_dict)))"

section \<open>Resolving an instance\<close>

text \<open>
  \<^verbatim>\<open>get_instance\<close> (from \<^verbatim>\<open>texar.torch.utils.utils\<close>), \<^verbatim>\<open>isinstance(instance, typ)\<close> for
  the caller's class \<open>typ\<close> and the texts \<^verbatim>\<open>f"{instance}"\<close>, \<^verbatim>\<open>f"{typ}"\<close> are parameters.
  \<^verbatim>\<open>{**a, **b}\<close> inserts the items of \<open>a\<close>, then those of \<open>b\<close>, and raises
  \<^verbatim>\<open>TypeError\<close> when an operand is not a mapping.
\<close>

definition dict_items :: "'v pyval \<Rightarrow> error + 'v registry" where
  "dict_items v = (case v of PyDict k kvs \<Rightarrow> Inr kvs | _ \<Rightarrow> Inl (TypeError ''not a mapping''))"

definition merge_dicts :: "'v registry \<Rightarrow> 'v registry \<Rightarrow> 'v registry" where
  "merge_dicts a b = od_of_items (a @ b)"

definition to_instance ::
  "('v pyval \<Rightarrow> 'v registry \<Rightarrow> string list \<Rightarrow> error + 'v pyval) \<Rightarrow> ('v pyval \<Rightarrow> 't \<Rightarrow> bool) \<Rightarrow>
     ('v pyval \<Rightarrow> string) \<Rightarrow> ('t \<Rightarrow> string) \<Rightarrow>
     't \<Rightarrow> 'v pyval \<Rightarrow> string list \<Rightarrow> 'v registry option \<Rightarrow> error + 'v pyval" where
  "to_instance get_instance isinstance str_of str_of_type typ instance modules extra_kwargs =
     (if instance = PyNone then Inr PyNone
      else
        bind_err
          (case instance of
             PyDict k kvs \<Rightarrow>
               bind_err (dict_items (case map_of kvs (PyStr ''kwargs'') of
                                       None \<Rightarrow> PyDict PlainDict []
                                     | Some kw \<Rightarrow> kw)) (\<lambda>kw.
               let kwargs = merge_dicts kw (case extra_kwargs of None \<Rightarrow> [] | Some e \<Rightarrow> e)
               in bind_err (od_get kvs (PyStr ''type'')) (\<lambda>ty.
                  get_instance ty kwargs modules))
           | _ \<Rightarrow> Inr instance) (\<lambda>inst.
        if \<not> isinstance inst typ
        then Inl (ValueError (''The instance '' @ str_of inst @ '' is not of type '' @
                              str_of_type typ))
        else Inr inst))"

section \<open>Python floats\<close>

text \<open>
  A Python \<^verbatim>\<open>float\<close> is an IEEE 754 binary64 number. \<open>Finite neg m e\<close> is the number
  \<open>m \<times> 2 ^ e\<close>, negated when \<open>neg\<close> holds; it is kept with \<open>m\<close> odd, or with \<open>m = 0\<close> and
  \<open>e = 0\<close> for the two zeros \<^verbatim>\<open>0.0\<close> and \<^verbatim>\<open>-0.0\<close>. \<open>Infinite neg\<close> is \<^verbatim>\<open>inf\<close> or
  \<^verbatim>\<open>-inf\<close>. The operations below never produce a \<^verbatim>\<open>nan\<close>. \<open>float_val\<close> is the
  rational value of a finite float.
\<close>

datatype pyfloat = Finite bool nat int | Infinite bool

definition float_val :: "pyfloat \<Rightarrow> rat option" where
  "float_val x =
     (case x of
        Finite neg m e \<Rightarrow>
          Some ((if neg then - 1 else 1) * of_nat m *
                (if 0 \<le> e then 2 ^ nat e else 1 / 2 ^ nat (- e)))
      | Infinite neg \<Rightarrow> None)"

text \<open>\<^verbatim>\<open>n.bit_length()\<close>.\<close>

function bit_length :: "nat \<Rightarrow> nat" where
  "bit_length n = (if n = 0 then 0 else Suc (bit_length (n div 2)))"
  by pat_completeness auto
termination
  by (relation "measure (\<lambda>n. n)") auto

declare bit_length.simps [simp del]

text \<open>The exponent \<open>e\<close> with \<open>2 ^ e \<le> p / q < 2 ^ (e + 1)\<close>, for positive \<open>p\<close> and \<open>q\<close>.\<close>

definition floor_log2 :: "nat \<Rightarrow> nat \<Rightarrow> int" where
  "floor_log2 p q =
     (let k = int (bit_length p) - int (bit_length q)
      in if (if 0 \<le> k then q * 2 ^ nat k \<le> p else q \<le> p * 2 ^ nat (- k)) then k else k - 1)"

text \<open>The integer nearest to \<open>p / q\<close>, the even one of two that are equally near.\<close>

definition round_half_even :: "nat \<Rightarrow> nat \<Rightarrow> nat" where
  "round_half_even p q =
     (let f = p div q; r = p mod q
      in if 2 * r < q then f else if q < 2 * r then f + 1 else if even f then f else f + 1)"

function strip_zeros :: "nat \<Rightarrow> int \<Rightarrow> nat \<times> int" where
  "strip_zeros m e =
     (if m = 0 then (0, 0) else if even m then strip_zeros (m div 2) (e + 1) else (m, e))"
  by pat_completeness auto
termination
  by (relation "measure (\<lambda>(m, e). m)") auto

declare strip_zeros.simps [simp del]

text \<open>
  Rounding the number \<open>p / q\<close> (\<open>q\<close> positive), negated when \<open>neg\<close> holds, to the nearest
  binary64 number, ties to even: 53 significant bits, the exponent of the last bit not
  below \<open>-1074\<close> (gradual underflow, down to a zero that keeps the sign). The result is
  \<open>None\<close> when the rounded magnitude reaches \<open>2 ^ 1024\<close>, which no finite float holds.
  \<open>strip_zeros\<close> brings the result to the form with an odd \<open>m\<close>.
\<close>

definition round_float :: "bool \<Rightarrow> nat \<Rightarrow> nat \<Rightarrow> pyfloat option" where
  "round_float neg p q =
     (if p = 0 then Some (Finite neg 0 0)
      else
        let e = floor_log2 p q;
            s = max e (- 1022) - 52;
            m = (if 0 \<le> s then round_half_even p (q * 2 ^ nat s)
                 else round_half_even (p * 2 ^ nat (- s)) q)
        in if s < 971 \<or> (s = 971 \<and> m < 2 ^ 53)
           then Some (case strip_zeros m s of (m', e') \<Rightarrow> Finite neg m' e')
           else None)"

text \<open>
  \<^verbatim>\<open>a / b\<close> on two Python integers: the correctly rounded quotient;
  \<^verbatim>\<open>ZeroDivisionError\<close> for a zero divisor, \<^verbatim>\<open>OverflowError\<close> when the quotient is too
  large for a float. A zero quotient is negative when the divisor is.
\<close>

definition int_true_divide :: "int \<Rightarrow> int \<Rightarrow> error + pyfloat" where
  "int_true_divide a b =
     (if b = 0 then Inl ZeroDivisionError
      else case round_float ((a < 0) \<noteq> (b < 0)) (nat \<bar>a\<bar>) (nat \<bar>b\<bar>) of
             None \<Rightarrow> Inl OverflowError
           | Some x \<Rightarrow> Inr x)"

text \<open>
  \<^verbatim>\<open>x * 100\<close> on a float \<open>x\<close>: the integer becomes the float \<open>100.0 = 25 \<times> 2 ^ 2\<close>, and the
  exact product is rounded; a product beyond the finite range is an infinity (a float
  multiplication raises nothing).
\<close>

definition mul_hundred :: "pyfloat \<Rightarrow> pyfloat" where
  "mul_hundred x =
     (case x of
        Finite neg m e \<Rightarrow>
          (case round_float neg (m * 25 * 2 ^ nat (e + 2)) (2 ^ nat (- (e + 2))) of
             None \<Rightarrow> Infinite neg
           | Some y \<Rightarrow> y)
      | Infinite neg \<Rightarrow> Infinite neg)"

section \<open>The progress tracker\<close>

text \<open>
  \<^verbatim>\<open>time.time()\<close> is the argument \<open>now\<close> of the constructor. \<^verbatim>\<open>progress\<close> evaluates
  \<^verbatim>\<open>self.n_examples / self.size * 100\<close> from left to right: a true division of two
  integers, then a float multiplication.
\<close>

record ProgressTracker =
  size' :: "int option"
  n_examples :: int
  start_time :: pyfloat

definition ProgressTracker_init :: "int option \<Rightarrow> pyfloat \<Rightarrow> ProgressTracker" where
  "ProgressTracker_init sz now = \<lparr>size' = sz, n_examples = 0, start_time = now\<rparr>"

definition add :: "ProgressTracker \<Rightarrow> int \<Rightarrow> ProgressTracker" where
  "add self n = self\<lparr>n_examples := n_examples self + n\<rparr>"

definition progress :: "ProgressTracker \<Rightarrow> error + pyfloat option" where
  "progress self =
     (case size' self of
        None \<Rightarrow> Inr None
      | Some s \<Rightarrow>
          bind_err (int_true_divide (n_examples self) s) (\<lambda>quotient.
          Inr (Some (mul_hundred quotient))))"

section \<open>Metric lists\<close>

text \<open>
  A \<^verbatim>\<open>MetricList\<close> holds the registry \<^verbatim>\<open>metrics\<close> (an \<^verbatim>\<open>OrderedDict[str, Metric]\<close>) and
  the dictionary \<^verbatim>\<open>values\<close>, here \<open>vals\<close>.
\<close>

record 'v MetricList =
  metrics :: "(string \<times> 'v metric) list"
  vals :: "(string \<times> 'v) list"

definition MetricList_init ::
  "(string \<times> 'v metric) list \<Rightarrow> (string \<times> 'v) list option \<Rightarrow> 'v MetricList" where
  "MetricList_init ms vs =
     \<lparr>metrics = ms,
      vals = (case vs of
                None \<Rightarrow> od_of_items (map (\<lambda>(name, metric). (name, cur_value metric)) ms)
              | Some v \<Rightarrow> v)\<rparr>"

text \<open>The argument \<^verbatim>\<open>other: Any\<close> of the comparisons.\<close>

datatype 'v any = AMetricList "'v MetricList" | NotAMetricList

text \<open>
  Lines 198-202: \<^verbatim>\<open>zip\<close> pairs the items of the two registries and stops at the end of
  the shorter one. \<^verbatim>\<open>type(metric)\<close> is the class, given by its module and name.
\<close>

fun compare_pairs :: "(string \<times> 'v metric) list \<Rightarrow> (string \<times> 'v metric) list \<Rightarrow> error + unit" where
  "compare_pairs ((name, metric) # r) ((other_name, other_metric) # r') =
     (if name \<noteq> other_name \<or>
         (class_module metric, class_name metric) \<noteq>
           (class_module other_metric, class_name other_metric)
      then Inl (ValueError ''Cannot compare two metric lists with different base metrics'')
      else compare_pairs r r')"
| "compare_pairs r r' = Inr ()"

text \<open>\<^verbatim>\<open>MetricList._compare_metrics\<close>.\<close>

definition priv_compare_metrics :: "'v MetricList \<Rightarrow> 'v any \<Rightarrow> error + unit" where
  "priv_compare_metrics self other =
     (case other of
        NotAMetricList \<Rightarrow> Inl (ValueError ''Cannot compare to an object not of type MetricList'')
      | AMetricList ml \<Rightarrow> compare_pairs (metrics self) (metrics ml))"

text \<open>
  \<^verbatim>\<open>all(self.values[name] == other.values[name] for name in self.metrics)\<close>: the names
  are visited in registry order, a missing name raises \<^verbatim>\<open>KeyError\<close>, and the first
  unequal pair ends the iteration.
\<close>

fun all_equal :: "string list \<Rightarrow> (string \<times> 'v) list \<Rightarrow> (string \<times> 'v) list \<Rightarrow> error + bool" where
  "all_equal [] sv ov = Inr True"
| "all_equal (name # names) sv ov =
     bind_err (od_get sv name) (\<lambda>a.
     bind_err (od_get ov name) (\<lambda>b.
     if a = b then all_equal names sv ov else Inr False))"

text \<open>\<^verbatim>\<open>MetricList.__eq__\<close>.\<close>

definition MetricList_eq :: "'v MetricList \<Rightarrow> 'v any \<Rightarrow> error + bool" where
  "MetricList_eq self other =
     bind_err (priv_compare_metrics self other) (\<lambda>_.
     case other of
       AMetricList ml \<Rightarrow> all_equal (map fst (metrics self)) (vals self) (vals ml)
     | NotAMetricList \<Rightarrow> Inl (AttributeError ''values''))"

text \<open>Lines 214-218: the loop of \<^verbatim>\<open>__gt__\<close>.\<close>

fun gt_loop :: "(string \<times> 'v metric) list \<Rightarrow> (string \<times> 'v) list \<Rightarrow> (string \<times> 'v) list \<Rightarrow> error + bool" where
  "gt_loop [] sv ov = Inr False"
| "gt_loop ((name, metric) # r) sv ov =
     bind_err (od_get sv name) (\<lambda>a.
     bind_err (od_get ov name) (\<lambda>b.
     case better metric a b of
       Some cmp \<Rightarrow> Inr cmp
     | None \<Rightarrow> gt_loop r sv ov))"

text \<open>\<^verbatim>\<open>MetricList.__gt__\<close>.\<close>

definition MetricList_gt :: "'v MetricList \<Rightarrow> 'v any \<Rightarrow> error + bool" where
  "MetricList_gt self other =
     bind_err (priv_compare_metrics self other) (\<lambda>_.
     case other of
       AMetricList ml \<Rightarrow> gt_loop (metrics self) (vals self) (vals ml)
     | NotAMetricList \<Rightarrow> Inl (AttributeError ''values''))"

section \<open>The items and names of a run\<close>

text \<open>
  The \<open>(name, item)\<close> pairs that lines 61-64 resolve for the items \<open>xs\<close>, numbered from
  \<open>idx\<close>, up to the first item whose unpacking or naming raises.
\<close>

fun named_items ::
  "(nat \<Rightarrow> 'v pyval \<Rightarrow> error + 'v pyval) \<Rightarrow> nat \<Rightarrow> 'v pyval list \<Rightarrow> ('v pyval \<times> 'v pyval) list" where
  "named_items default_name_fn idx [] = []"
| "named_items default_name_fn idx (x # xs) =
     (case unpack_item default_name_fn idx x of
        Inl e \<Rightarrow> []
      | Inr ni \<Rightarrow> ni # named_items default_name_fn (Suc idx) xs)"

text \<open>The counter after the names of these pairs have been counted.\<close>

definition loop_counter :: "('v pyval \<times> 'v pyval) list \<Rightarrow> 'v counter \<Rightarrow> 'v counter" where
  "loop_counter nis counter = fold (\<lambda>ni c. counter_update c (fst ni)) nis counter"

text \<open>
  The items the loop runs over (the list \<^verbatim>\<open>xs\<close> of the source; a dictionary and \<^verbatim>\<open>None\<close>
  do not reach the loop) and the number of items of an input.
\<close>

definition spec_items :: "'v pyval \<Rightarrow> 'v pyval list" where
  "spec_items ds = (case ds of PyNone \<Rightarrow> [] | PyDict k kvs \<Rightarrow> [] | PyList xs \<Rightarrow> xs | _ \<Rightarrow> [ds])"

definition item_count :: "'v pyval \<Rightarrow> nat" where
  "item_count ds =
     (case ds of PyNone \<Rightarrow> 0 | PyDict k kvs \<Rightarrow> length kvs | PyList xs \<Rightarrow> length xs | _ \<Rightarrow> 1)"

text \<open>
  Every resolved pair with the number of its occurrence: the \<open>c\<close>-th item named \<open>n\<close> becomes
  \<open>(n, v, c)\<close>. \<open>seen\<close> holds the names before the list.
\<close>

fun numbered :: "'k list \<Rightarrow> ('k \<times> 'a) list \<Rightarrow> ('k \<times> 'a \<times> nat) list" where
  "numbered seen [] = []"
| "numbered seen ((n, v) # r) = (n, v, Suc (count_list seen n)) # numbered (seen @ [n]) r"

text \<open>
  The keys that \<^verbatim>\<open>unambiguous_name_fn\<close> gives to the colliding items, those whose name
  occurs at least twice: \<^verbatim>\<open>unambiguous_name_fn(n, v, c)\<close> for the \<open>c\<close>-th item named \<open>n\<close>.
  They are fresh when they are pairwise distinct and none of them is a name of the input.
\<close>

definition disambiguated ::
  "('k \<Rightarrow> 'a \<Rightarrow> nat \<Rightarrow> error + 'k) \<Rightarrow> ('k \<times> 'a) list \<Rightarrow> (error + 'k) list" where
  "disambiguated u nis =
     map (\<lambda>(n, v, c). u n v c)
       (filter (\<lambda>(n, v, c). 2 \<le> count_list (map fst nis) n) (numbered [] nis))"

definition fresh_keys :: "('k \<Rightarrow> 'a \<Rightarrow> nat \<Rightarrow> error + 'k) \<Rightarrow> ('k \<times> 'a) list \<Rightarrow> bool" where
  "fresh_keys u nis \<longleftrightarrow>
     distinct (disambiguated u nis) \<and>
     set (disambiguated u nis) \<inter> Inr ` set (map fst nis) = {}"

text \<open>
  An input has no collision left when it is a dictionary (its keys are distinct) or its
  disambiguated keys are fresh.
\<close>

definition collision_free ::
  "('v pyval \<Rightarrow> 'v pyval \<Rightarrow> nat \<Rightarrow> error + 'v pyval) \<Rightarrow> (nat \<Rightarrow> 'v pyval \<Rightarrow> error + 'v pyval) \<Rightarrow>
     'v pyval \<Rightarrow> bool" where
  "collision_free u d ds =
     (case ds of
        PyDict k kvs \<Rightarrow> distinct (map fst kvs)
      | _ \<Rightarrow> fresh_keys u (named_items d 0 (spec_items ds)))"

text \<open>The same freshness, one colliding item at a time.\<close>

definition fresh_set :: "('k \<Rightarrow> 'a \<Rightarrow> nat \<Rightarrow> error + 'k) \<Rightarrow> ('k \<times> 'a) list \<Rightarrow> bool" where
  "fresh_set u nis \<longleftrightarrow>
     (\<forall>n v c k. (n, v, c) \<in> set (numbered [] nis) \<longrightarrow> 2 \<le> count_list (map fst nis) n \<longrightarrow>
                u n v c = Inr k \<longrightarrow> k \<notin> set (map fst nis)) \<and>
     (\<forall>n v c n' v' c'. (n, v, c) \<in> set (numbered [] nis) \<longrightarrow>
                (n', v', c') \<in> set (numbered [] nis) \<longrightarrow>
                2 \<le> count_list (map fst nis) n \<longrightarrow> 2 \<le> count_list (map fst nis) n' \<longrightarrow>
                u n v c = u n' v' c' \<longrightarrow> (n, v, c) = (n', v', c'))"

text \<open>
  The invariant of the loop under fresh keys, after the pairs \<open>nis\<close>: one entry per pair,
  distinct keys, every key is a name that occurred once or the disambiguated key of a
  colliding item, and a name that occurred once still holds its item.
\<close>

definition key_ok :: "('k \<Rightarrow> 'a \<Rightarrow> nat \<Rightarrow> error + 'k) \<Rightarrow> ('k \<times> 'a) list \<Rightarrow> 'k \<Rightarrow> bool" where
  "key_ok u nis k \<longleftrightarrow>
     count_list (map fst nis) k = 1 \<or>
     (\<exists>n v c. (n, v, c) \<in> set (numbered [] nis) \<and> 2 \<le> count_list (map fst nis) n \<and>
              u n v c = Inr k)"

definition run_inv ::
  "('k \<Rightarrow> 'a \<Rightarrow> nat \<Rightarrow> error + 'k) \<Rightarrow> ('k \<times> 'a) list \<Rightarrow> ('k \<times> 'a) list \<Rightarrow> bool" where
  "run_inv u nis ret \<longleftrightarrow>
     length ret = length nis \<and>
     distinct (map fst ret) \<and>
     (\<forall>k. k \<in> fst ` set ret \<longrightarrow> key_ok u nis k) \<and>
     (\<forall>n. count_list (map fst nis) n = 1 \<longrightarrow>
        (\<exists>v. (n, v, 1) \<in> set (numbered [] nis) \<and> map_of ret n = Some v))"


section \<open>Unfolding rules and facts about ordered dictionaries\<close>

lemmas metric_dict_defs =
  to_metric_dict_def is_plain_dict_def is_Metric_def type_repr_def metric_default_name_fn_def
  metric_unambiguous_name_fn_def

lemmas normalizer_defs =
  priv_to_dict_def unpack_item_def insert_item_def bind_err_def counter_update_def
  rename_first_def store_def od_get_def od_del_def format_name_def str_nat.simps digit_char_def

lemma od_set_fresh: "k \<notin> fst ` set d \<Longrightarrow> od_set k v d = d @ [(k, v)]"
  by (induction d) auto

lemma fold_od_set_distinct:
  "distinct (map fst kvs) \<Longrightarrow> fst ` set kvs \<inter> fst ` set acc = {} \<Longrightarrow>
   fold (\<lambda>kv d. od_set (fst kv) (snd kv) d) kvs acc = acc @ kvs"
proof (induction kvs arbitrary: acc)
  case Nil
  then show ?case by simp
next
  case (Cons kv kvs)
  have fresh: "fst kv \<notin> fst ` set acc" using Cons.prems(2) by auto
  have "fst ` set kvs \<inter> fst ` set (acc @ [kv]) = {}"
    using Cons.prems by auto
  with Cons.IH [of "acc @ [kv]"] Cons.prems(1) fresh show ?case
    by (simp add: od_set_fresh)
qed

lemma od_of_items_distinct: "distinct (map fst kvs) \<Longrightarrow> od_of_items kvs = kvs"
  using fold_od_set_distinct [of kvs "[]"] by (simp add: od_of_items_def)

section \<open>The loop of the normalizer, item by item\<close>

lemma bind_err_Inr_iff:
  "bind_err r f = Inr y \<longleftrightarrow> (\<exists>x. r = Inr x \<and> f x = Inr y)"
  by (cases r) (simp_all add: bind_err_def)

lemma bind_err_simps [simp]:
  "bind_err (Inl e) f = Inl e" "bind_err (Inr x) f = f x"
  by (simp_all add: bind_err_def)

lemma bind_err_assoc:
  "bind_err (bind_err r f) g = bind_err r (\<lambda>x. bind_err (f x) g)"
  by (cases r) simp_all

lemma loop_Inr_named_items:
  "to_dict_loop u d idx xs ret counter = Inr ret' \<Longrightarrow> length (named_items d idx xs) = length xs"
proof (induction xs arbitrary: idx ret counter)
  case Nil
  then show ?case by simp
next
  case (Cons x xs)
  from Cons.prems obtain name item ret1 where
    un: "unpack_item d idx x = Inr (name, item)" and
    rest: "to_dict_loop u d (Suc idx) xs ret1 (counter_update counter name) = Inr ret'"
    by (auto simp add: bind_err_Inr_iff)
  from Cons.IH [OF rest] un show ?case by simp
qed

lemma named_items_append:
  "length (named_items d idx xs) = length xs \<Longrightarrow>
   named_items d idx (xs @ ys) = named_items d idx xs @ named_items d (idx + length xs) ys"
proof (induction xs arbitrary: idx)
  case Nil
  then show ?case by simp
next
  case (Cons x xs)
  then show ?case by (cases "unpack_item d idx x") auto
qed

lemma loop_snoc:
  "to_dict_loop u d idx (xs @ [x]) ret counter =
     bind_err (to_dict_loop u d idx xs ret counter) (\<lambda>ret1.
     bind_err (unpack_item d (idx + length xs) x) (\<lambda>(name, item).
     insert_item u ret1 (loop_counter (named_items d idx xs) counter) name item))"
proof (induction xs arbitrary: idx ret counter)
  case Nil
  show ?case
    by (cases "unpack_item d idx x")
       (auto simp add: loop_counter_def bind_err_def split: sum.splits)
next
  case (Cons y ys)
  show ?case
  proof (cases "unpack_item d idx y")
    case (Inl e)
    then show ?thesis by simp
  next
    case (Inr ni)
    obtain name item where ni: "ni = (name, item)" by (cases ni)
    show ?thesis
    proof (cases "insert_item u ret counter name item")
      case (Inl e)
      with Inr ni show ?thesis by simp
    next
      case ret1: (Inr ret1)
      with Inr ni Cons.IH [of "Suc idx" ret1 "counter_update counter name"]
      show ?thesis by (simp add: loop_counter_def)
    qed
  qed
qed

lemma loop_counter_snoc:
  "loop_counter (nis @ [ni]) counter = counter_update (loop_counter nis counter) (fst ni)"
  by (simp add: loop_counter_def)

lemma loop_counter_empty:
  "loop_counter nis Map.empty n =
     (if count_list (map fst nis) n = 0 then None else Some (count_list (map fst nis) n))"
proof (induction nis arbitrary: n rule: rev_induct)
  case Nil
  then show ?case by (simp add: loop_counter_def)
next
  case (snoc ni nis)
  from snoc [of n] snoc [of "fst ni"] show ?case
    by (simp add: loop_counter_snoc counter_update_def)
qed


lemma od_get_Inr_iff: "od_get d k = Inr v \<longleftrightarrow> map_of d k = Some v"
  by (simp add: od_get_def split: option.splits)

lemma keys_od_set: "fst ` set (od_set k v d) = insert k (fst ` set d)"
  by (induction d) (force split: if_splits)+

lemma keys_filter: "fst ` set (filter (\<lambda>kv. fst kv \<noteq> k) d) = fst ` set d - {k}"
  by (induction d) auto

lemma map_of_keys: "map_of d k = Some v \<Longrightarrow> k \<in> fst ` set d"
  by (force dest: map_of_SomeD)

lemma insert_item_second:
  assumes "hashable name" and "counter name = Some 1" and "od_get ret name = Inr prev"
    and "u name prev 1 = Inr k1" and "hashable k1"
    and "u name item 2 = Inr k2" and "hashable k2"
  shows "insert_item u ret counter name item =
           Inr (od_set k2 item (filter (\<lambda>kv. fst kv \<noteq> name) (od_set k1 prev ret)))"
proof -
  from assms(3) have "name \<in> fst ` set ret" by (simp add: od_get_Inr_iff map_of_keys)
  then have "name \<in> fst ` set (od_set k1 prev ret)" by (simp add: keys_od_set)
  with assms show ?thesis
    by (simp add: insert_item_def rename_first_def store_def od_del_def eval_nat_numeral)
qed

lemma insert_item_later:
  assumes "hashable name" and "counter name = Some c" and "c \<noteq> 1"
    and "u name item (c + 1) = Inr k" and "hashable k"
  shows "insert_item u ret counter name item = Inr (od_set k item ret)"
  using assms by (simp add: insert_item_def store_def)

lemma insert_item_first:
  assumes "hashable name" and "counter name = None"
  shows "insert_item u ret counter name item = Inr (od_set name item ret)"
  using assms by (simp add: insert_item_def)

lemma insert_item_Inr:
  assumes "insert_item u ret counter name item = Inr ret'"
  shows "hashable name \<and>
    ((counter name = None \<and> ret' = od_set name item ret) \<or>
     (\<exists>prev k1 k2. counter name = Some 1 \<and> map_of ret name = Some prev \<and>
        u name prev 1 = Inr k1 \<and> hashable k1 \<and> u name item 2 = Inr k2 \<and> hashable k2 \<and>
        ret' = od_set k2 item (filter (\<lambda>kv. fst kv \<noteq> name) (od_set k1 prev ret))) \<or>
     (\<exists>c k. counter name = Some c \<and> c \<noteq> 1 \<and> u name item (c + 1) = Inr k \<and> hashable k \<and>
        ret' = od_set k item ret))"
proof -
  from assms have h: "hashable name"
    by (auto simp add: insert_item_def split: if_splits)
  show ?thesis
  proof (cases "counter name")
    case None
    with assms h show ?thesis by (simp add: insert_item_def)
  next
    case (Some c)
    show ?thesis
    proof (cases "c = 1")
      case False
      with assms h Some obtain k where "u name item (c + 1) = Inr k" "store k item ret = Inr ret'"
        by (auto simp add: insert_item_def bind_err_Inr_iff)
      with h Some False show ?thesis
        by (auto simp add: store_def split: if_splits)
    next
      case True
      with assms h Some obtain ret1 k2 where
        r: "rename_first u name ret = Inr ret1" and k2: "u name item 2 = Inr k2"
        and s2: "store k2 item ret1 = Inr ret'"
        by (auto simp add: insert_item_def bind_err_Inr_iff eval_nat_numeral)
      from r obtain prev k1 ret0 where
        p: "od_get ret name = Inr prev" and k1: "u name prev 1 = Inr k1"
        and s1: "store k1 prev ret = Inr ret0" and dl: "od_del name ret0 = Inr ret1"
        by (auto simp add: rename_first_def bind_err_Inr_iff)
      from s1 have hk1: "hashable k1" and ret0: "ret0 = od_set k1 prev ret"
        by (auto simp add: store_def split: if_splits)
      from dl have ret1: "ret1 = filter (\<lambda>kv. fst kv \<noteq> name) ret0"
        by (auto simp add: od_del_def split: if_splits)
      from s2 have hk2: "hashable k2" and ret': "ret' = od_set k2 item ret1"
        by (auto simp add: store_def split: if_splits)
      from p have "map_of ret name = Some prev" by (simp add: od_get_Inr_iff)
      with h Some True k1 hk1 k2 hk2 ret0 ret1 ret' show ?thesis by simp
    qed
  qed
qed

lemma insert_item_keys:
  assumes "insert_item u ret counter name item = Inr ret'"
  shows "fst ` set ret - {name} \<subseteq> fst ` set ret'"
    and "counter name = None \<Longrightarrow> name \<in> fst ` set ret'"
proof -
  from insert_item_Inr [OF assms] consider
    (first) "counter name = None" "ret' = od_set name item ret"
  | (second) prev k1 k2 where "counter name = Some 1"
      "ret' = od_set k2 item (filter (\<lambda>kv. fst kv \<noteq> name) (od_set k1 prev ret))"
  | (later) c k where "counter name = Some c" "ret' = od_set k item ret"
    by blast
  then have "fst ` set ret - {name} \<subseteq> fst ` set ret' \<and>
             (counter name = None \<longrightarrow> name \<in> fst ` set ret')"
  proof cases
    case first
    then show ?thesis by (simp add: keys_od_set) blast
  next
    case second
    then show ?thesis by (simp only: keys_od_set keys_filter) blast
  next
    case later
    then show ?thesis by (simp add: keys_od_set) blast
  qed
  then show "fst ` set ret - {name} \<subseteq> fst ` set ret'"
    and "counter name = None \<Longrightarrow> name \<in> fst ` set ret'"
    by blast+
qed

text \<open>A name counted once is a key of the registry.\<close>

lemma counted_once_is_key:
  "to_dict_loop u d 0 xs [] Map.empty = Inr ret \<Longrightarrow>
   count_list (map fst (named_items d 0 xs)) n = 1 \<Longrightarrow> n \<in> fst ` set ret"
proof (induction xs arbitrary: ret n rule: rev_induct)
  case Nil
  then show ?case by simp
next
  case (snoc x xs)
  from snoc.prems(1) obtain ret1 name item where
    l: "to_dict_loop u d 0 xs [] Map.empty = Inr ret1" and
    un: "unpack_item d (length xs) x = Inr (name, item)" and
    ins: "insert_item u ret1 (loop_counter (named_items d 0 xs) Map.empty) name item = Inr ret"
    by (auto simp add: loop_snoc bind_err_Inr_iff)
  have len: "length (named_items d 0 xs) = length xs"
    using l by (rule loop_Inr_named_items)
  have names: "named_items d 0 (xs @ [x]) = named_items d 0 xs @ [(name, item)]"
    using un by (simp add: named_items_append [OF len])
  note keys = insert_item_keys(1) [OF ins] and nm = insert_item_keys(2) [OF ins]
  show ?case
  proof (cases "n = name")
    case True
    with snoc.prems(2) names have "count_list (map fst (named_items d 0 xs)) name = 0" by simp
    then have "loop_counter (named_items d 0 xs) Map.empty name = None"
      by (simp add: loop_counter_empty)
    with nm True show ?thesis by simp
  next
    case False
    with snoc.prems(2) names have "count_list (map fst (named_items d 0 xs)) n = 1" by simp
    from snoc.IH [OF l this] False keys show ?thesis by auto
  qed
qed

lemma key_has_value: "k \<in> fst ` set d \<Longrightarrow> \<exists>v. od_get d k = Inr v"
  apply (cases "map_of d k")
   apply (auto simp add: od_get_def map_of_eq_None_iff)
  done

lemma list_snoc_step:
  assumes "priv_to_dict (PyList xs) u d = Inr ret"
    and "unpack_item d (length xs) x = Inr (name, item)"
  shows "priv_to_dict (PyList (xs @ [x])) u d =
           insert_item u ret (loop_counter (named_items d 0 xs) Map.empty) name item"
  using assms apply (simp add: priv_to_dict_def loop_snoc)
  done

text \<open>
  C3. Let the list \<open>xs\<close> be normalized to \<open>ret\<close>, and let one more item \<open>x\<close>, resolved to
  \<open>(name, item)\<close>, follow it. If \<open>name\<close> occurs once among the names of \<open>xs\<close>, it is a key
  of \<open>ret\<close>; the value \<open>prev\<close> stored there is stored under
  \<^verbatim>\<open>unambiguous_name_fn(name, prev, 1)\<close> (in place if that key exists, at the end
  otherwise), the key \<open>name\<close> is deleted, and \<open>item\<close> is stored under
  \<^verbatim>\<open>unambiguous_name_fn(name, item, 2)\<close>. If \<open>name\<close> occurs \<open>c \<ge> 2\<close> times, \<open>item\<close> is stored
  under \<^verbatim>\<open>unambiguous_name_fn(name, item, c + 1)\<close> and nothing else changes.
\<close>

theorem collision_renaming:
  assumes "priv_to_dict (PyList xs) u d = Inr ret"
    and "unpack_item d (length xs) x = Inr (name, item)"
    and "hashable name"
  shows "(count_list (map fst (named_items d 0 xs)) name = 1 \<longrightarrow>
          (\<exists>prev. od_get ret name = Inr prev \<and>
            (\<forall>k1 k2. u name prev 1 = Inr k1 \<and> hashable k1 \<and>
                     u name item 2 = Inr k2 \<and> hashable k2 \<longrightarrow>
               priv_to_dict (PyList (xs @ [x])) u d =
                 Inr (od_set k2 item (filter (\<lambda>kv. fst kv \<noteq> name) (od_set k1 prev ret)))))) \<and>
         (\<forall>c. count_list (map fst (named_items d 0 xs)) name = c \<and> 2 \<le> c \<longrightarrow>
            (\<forall>k. u name item (c + 1) = Inr k \<and> hashable k \<longrightarrow>
               priv_to_dict (PyList (xs @ [x])) u d = Inr (od_set k item ret)))"
proof -
  from assms(1) have l: "to_dict_loop u d 0 xs [] Map.empty = Inr ret"
    by (simp add: priv_to_dict_def)
  note step = list_snoc_step [OF assms(1,2)]
  have second: "\<exists>prev. od_get ret name = Inr prev \<and>
            (\<forall>k1 k2. u name prev 1 = Inr k1 \<and> hashable k1 \<and>
                     u name item 2 = Inr k2 \<and> hashable k2 \<longrightarrow>
               priv_to_dict (PyList (xs @ [x])) u d =
                 Inr (od_set k2 item (filter (\<lambda>kv. fst kv \<noteq> name) (od_set k1 prev ret))))"
    if once: "count_list (map fst (named_items d 0 xs)) name = 1"
  proof -
    have "\<exists>v. od_get ret name = Inr v"
      by (rule key_has_value [OF counted_once_is_key [OF l once]])
    then obtain prev where prev: "od_get ret name = Inr prev" ..
    from once have cnt: "loop_counter (named_items d 0 xs) Map.empty name = Some 1"
      by (simp add: loop_counter_empty)
    have "priv_to_dict (PyList (xs @ [x])) u d =
            Inr (od_set k2 item (filter (\<lambda>kv. fst kv \<noteq> name) (od_set k1 prev ret)))"
      if "u name prev 1 = Inr k1 \<and> hashable k1 \<and> u name item 2 = Inr k2 \<and> hashable k2"
      for k1 k2
      unfolding step
      by (rule insert_item_second
              [where counter = "loop_counter (named_items d 0 xs) Map.empty" and u = u,
               OF assms(3) cnt prev])
           (use that in simp_all)
    then have "\<forall>k1 k2. u name prev 1 = Inr k1 \<and> hashable k1 \<and>
                     u name item 2 = Inr k2 \<and> hashable k2 \<longrightarrow>
               priv_to_dict (PyList (xs @ [x])) u d =
                 Inr (od_set k2 item (filter (\<lambda>kv. fst kv \<noteq> name) (od_set k1 prev ret)))"
      by (intro allI impI)
    with prev show ?thesis by (intro exI [of _ prev] conjI)
  qed
  have later: "priv_to_dict (PyList (xs @ [x])) u d = Inr (od_set k item ret)"
    if c: "count_list (map fst (named_items d 0 xs)) name = c \<and> 2 \<le> c"
      and k: "u name item (c + 1) = Inr k \<and> hashable k" for c k
  proof -
    from c have cnt: "loop_counter (named_items d 0 xs) Map.empty name = Some c"
      by (auto simp add: loop_counter_empty)
    from c have ne: "c \<noteq> 1" by simp
    show ?thesis
      unfolding step
      by (rule insert_item_later
              [where counter = "loop_counter (named_items d 0 xs) Map.empty" and u = u,
               OF assms(3) cnt ne])
           (use k in simp_all)
  qed
  show ?thesis
  proof (intro conjI allI impI)
    assume "count_list (map fst (named_items d 0 xs)) name = 1"
    then show "\<exists>prev. od_get ret name = Inr prev \<and>
            (\<forall>k1 k2. u name prev 1 = Inr k1 \<and> hashable k1 \<and>
                     u name item 2 = Inr k2 \<and> hashable k2 \<longrightarrow>
               priv_to_dict (PyList (xs @ [x])) u d =
                 Inr (od_set k2 item (filter (\<lambda>kv. fst kv \<noteq> name) (od_set k1 prev ret))))"
      by (rule second)
  next
    fix c k
    assume a: "count_list (map fst (named_items d 0 xs)) name = c \<and> 2 \<le> c"
      and b: "u name item (c + 1) = Inr k \<and> hashable k"
    show "priv_to_dict (PyList (xs @ [x])) u d = Inr (od_set k item ret)"
      by (rule later [OF a b])
  qed
qed

theorem collision_renaming_witness:
  "priv_to_dict (PyList ([PyInt 5] @ [PyInt 5]))
     (dict_unambiguous_name_fn type_name) (dict_default_name_fn (Some ''m''))
     = Inr [(PyStr ''m.1'' :: int pyval, PyInt 5 :: int pyval), (PyStr ''m.2'', PyInt 5)] \<and>
   priv_to_dict (PyList ([PyInt 5, PyInt 5] @ [PyInt 5]))
     (dict_unambiguous_name_fn type_name) (dict_default_name_fn (Some ''m''))
     = Inr [(PyStr ''m.1'' :: int pyval, PyInt 5 :: int pyval), (PyStr ''m.2'', PyInt 5),
            (PyStr ''m.3'', PyInt 5)]"
proof -
  let ?u = "dict_unambiguous_name_fn type_name :: int pyval \<Rightarrow> int pyval \<Rightarrow> nat \<Rightarrow> error + int pyval"
  let ?d = "dict_default_name_fn (Some ''m'') :: nat \<Rightarrow> int pyval \<Rightarrow> error + int pyval"
  let ?m = "PyStr ''m'' :: int pyval"
  let ?five = "PyInt 5 :: int pyval"
  note defs = dict_unambiguous_name_fn_def dict_default_name_fn_def normalizer_defs
  have one: "priv_to_dict (PyList [?five]) ?u ?d = Inr [(?m, ?five)]"
    by (simp add: defs)
  have two: "priv_to_dict (PyList [?five, ?five]) ?u ?d
               = Inr [(PyStr ''m.1'', ?five), (PyStr ''m.2'', ?five)]"
    by (simp add: defs)
  have un1: "unpack_item ?d (length [?five]) ?five = Inr (?m, ?five)"
    by (simp add: defs)
  have un2: "unpack_item ?d (length [?five, ?five]) ?five = Inr (?m, ?five)"
    by (simp add: defs)
  have h: "hashable ?m" by simp
  have c1: "count_list (map fst (named_items ?d 0 [?five])) ?m = 1"
    by (simp add: defs)
  have c2: "count_list (map fst (named_items ?d 0 [?five, ?five])) ?m = 2 \<and> (2::nat) \<le> 2"
    by (simp add: defs)
  from collision_renaming [OF one un1 h, THEN conjunct1, rule_format, OF c1]
  obtain prev where p: "od_get [(?m, ?five)] ?m = Inr prev"
    and r: "\<forall>k1 k2. ?u ?m prev 1 = Inr k1 \<and> hashable k1 \<and> ?u ?m ?five 2 = Inr k2 \<and> hashable k2 \<longrightarrow>
               priv_to_dict (PyList ([?five] @ [?five])) ?u ?d =
                 Inr (od_set k2 ?five (filter (\<lambda>kv. fst kv \<noteq> ?m) (od_set k1 prev [(?m, ?five)])))"
    by blast
  from p have prev: "prev = ?five" by (simp add: od_get_def)
  have ks: "?u ?m ?five 1 = Inr (PyStr ''m.1'') \<and> hashable (PyStr ''m.1'' :: int pyval) \<and>
            ?u ?m ?five 2 = Inr (PyStr ''m.2'') \<and> hashable (PyStr ''m.2'' :: int pyval)"
    by (simp add: defs)
  from r [rule_format, of "PyStr ''m.1''" "PyStr ''m.2''"] ks prev
  have second: "priv_to_dict (PyList ([?five] @ [?five])) ?u ?d
     = Inr [(PyStr ''m.1'', ?five), (PyStr ''m.2'', ?five)]"
    by simp
  have k3: "?u ?m ?five (2 + 1) = Inr (PyStr ''m.3'') \<and> hashable (PyStr ''m.3'' :: int pyval)"
    by (simp add: defs)
  from collision_renaming [OF two un2 h, THEN conjunct2, rule_format, OF c2 k3]
  have third: "priv_to_dict (PyList ([?five, ?five] @ [?five])) ?u ?d
     = Inr [(PyStr ''m.1'', ?five), (PyStr ''m.2'', ?five), (PyStr ''m.3'', ?five)]"
    by simp
  from second third show ?thesis by (intro conjI)
qed

section \<open>The size of the registry\<close>

lemma distinct_od_set: "distinct (map fst d) \<Longrightarrow> distinct (map fst (od_set k v d))"
proof (induction d)
  case Nil
  then show ?case by simp
next
  case (Cons a d)
  have "fst ` set (od_set k v d) = insert k (fst ` set d)" by (rule keys_od_set)
  with Cons show ?case by (cases a) auto
qed

lemma distinct_filter_keys: "distinct (map fst d) \<Longrightarrow> distinct (map fst (filter P d))"
  by (rule distinct_map_filter)

lemma length_od_set: "length (od_set k v d) \<le> Suc (length d)"
  by (induction d) auto

lemma length_od_set_ge: "length d \<le> length (od_set k v d)"
  by (induction d) auto

lemma length_filter_key:
  "k \<in> fst ` set d \<Longrightarrow> length (filter (\<lambda>kv. fst kv \<noteq> k) d) < length d"
proof (induction d)
  case Nil
  then show ?case by simp
next
  case (Cons a d)
  have "length (filter (\<lambda>kv. fst kv \<noteq> k) d) \<le> length d" by simp
  with Cons show ?case by (cases "fst a = k") (auto simp add: less_Suc_eq_le)
qed

lemma insert_item_distinct:
  assumes "insert_item u ret counter name item = Inr ret'" and "distinct (map fst ret)"
  shows "distinct (map fst ret')"
proof -
  from insert_item_Inr [OF assms(1)] consider
    (first) "ret' = od_set name item ret"
  | (second) prev k1 k2 where
      "ret' = od_set k2 item (filter (\<lambda>kv. fst kv \<noteq> name) (od_set k1 prev ret))"
  | (later) k where "ret' = od_set k item ret"
    by blast
  then show ?thesis
  proof cases
    case first
    with assms(2) show ?thesis by (simp only: distinct_od_set)
  next
    case second
    with assms(2) show ?thesis
      by (simp only: distinct_od_set distinct_filter_keys)
  next
    case later
    with assms(2) show ?thesis by (simp only: distinct_od_set)
  qed
qed

lemma insert_item_length:
  assumes "insert_item u ret counter name item = Inr ret'"
  shows "length ret' \<le> Suc (length ret)"
proof -
  from insert_item_Inr [OF assms(1)] consider
    (first) "ret' = od_set name item ret"
  | (second) prev k1 k2 where "map_of ret name = Some prev"
      "ret' = od_set k2 item (filter (\<lambda>kv. fst kv \<noteq> name) (od_set k1 prev ret))"
  | (later) k where "ret' = od_set k item ret"
    by blast
  then show ?thesis
  proof cases
    case first
    then show ?thesis by (simp only: length_od_set)
  next
    case second
    from second(1) have "name \<in> fst ` set (od_set k1 prev ret)"
      by (simp only: keys_od_set) (simp add: map_of_keys)
    then have "length (filter (\<lambda>kv. fst kv \<noteq> name) (od_set k1 prev ret)) < length (od_set k1 prev ret)"
      by (rule length_filter_key)
    also have "\<dots> \<le> Suc (length ret)" by (rule length_od_set)
    finally have "length (filter (\<lambda>kv. fst kv \<noteq> name) (od_set k1 prev ret)) \<le> length ret"
      by simp
    moreover have "length ret' \<le> Suc (length (filter (\<lambda>kv. fst kv \<noteq> name) (od_set k1 prev ret)))"
      unfolding second(2) by (rule length_od_set)
    ultimately show ?thesis by simp
  next
    case later
    then show ?thesis by (simp only: length_od_set)
  qed
qed

lemma loop_distinct:
  "to_dict_loop u d idx xs ret counter = Inr ret' \<Longrightarrow> distinct (map fst ret) \<Longrightarrow>
   distinct (map fst ret')"
proof (induction xs arbitrary: idx ret counter)
  case Nil
  then show ?case by simp
next
  case (Cons x xs)
  from Cons.prems(1) obtain name item ret1 where
    ins: "insert_item u ret counter name item = Inr ret1" and
    rest: "to_dict_loop u d (Suc idx) xs ret1 (counter_update counter name) = Inr ret'"
    by (auto simp add: bind_err_Inr_iff)
  from insert_item_distinct [OF ins Cons.prems(2)] have "distinct (map fst ret1)" .
  from Cons.IH [OF rest this] show ?case .
qed

lemma loop_length:
  "to_dict_loop u d idx xs ret counter = Inr ret' \<Longrightarrow> length ret' \<le> length ret + length xs"
proof (induction xs arbitrary: idx ret counter)
  case Nil
  then show ?case by simp
next
  case (Cons x xs)
  from Cons.prems(1) obtain name item ret1 where
    ins: "insert_item u ret counter name item = Inr ret1" and
    rest: "to_dict_loop u d (Suc idx) xs ret1 (counter_update counter name) = Inr ret'"
    by (auto simp add: bind_err_Inr_iff)
  from insert_item_length [OF ins] Cons.IH [OF rest] show ?case by simp
qed

lemma fold_od_set_distinct_keys:
  "distinct (map fst acc) \<Longrightarrow>
   distinct (map fst (fold (\<lambda>kv d. od_set (fst kv) (snd kv) d) kvs acc))"
  by (induction kvs arbitrary: acc) (simp_all add: distinct_od_set)

lemma fold_od_set_length:
  "length (fold (\<lambda>kv d. od_set (fst kv) (snd kv) d) kvs acc) \<le> length acc + length kvs"
proof (induction kvs arbitrary: acc)
  case Nil
  then show ?case by simp
next
  case (Cons kv kvs)
  from Cons [of "od_set (fst kv) (snd kv) acc"] length_od_set [of "fst kv" "snd kv" acc]
  show ?case by simp
qed

lemma numbered_append:
  "numbered seen (a @ b) = numbered seen a @ numbered (seen @ map fst a) b"
proof (induction a arbitrary: seen)
  case Nil
  then show ?case by simp
next
  case (Cons x a)
  obtain n v where x: "x = (n, v)" by (cases x)
  from Cons [of "seen @ [n]"] show ?case by (simp add: x)
qed

lemma numbered_snoc:
  "numbered [] (nis @ [(n, v)]) = numbered [] nis @ [(n, v, Suc (count_list (map fst nis) n))]"
  by (simp add: numbered_append)

lemma numbered_bound:
  "(n, v, c) \<in> set (numbered seen nis) \<Longrightarrow> c \<le> count_list seen n + count_list (map fst nis) n"
proof (induction nis arbitrary: seen)
  case Nil
  then show ?case by simp
next
  case (Cons x nis)
  obtain n0 v0 where x: "x = (n0, v0)" by (cases x)
  from Cons.prems have
    "(n, v, c) = (n0, v0, Suc (count_list seen n0)) \<or> (n, v, c) \<in> set (numbered (seen @ [n0]) nis)"
    by (simp add: x)
  then show ?case
  proof
    assume "(n, v, c) = (n0, v0, Suc (count_list seen n0))"
    then show ?thesis by (simp add: x)
  next
    assume "(n, v, c) \<in> set (numbered (seen @ [n0]) nis)"
    from Cons.IH [OF this] show ?thesis by (simp add: x split: if_splits)
  qed
qed

lemma fresh_set_not_name:
  assumes "fresh_set u nis" and "(n, v, c) \<in> set (numbered [] nis)"
    and "2 \<le> count_list (map fst nis) n" and "u n v c = Inr k"
  shows "k \<notin> set (map fst nis)"
  by (rule assms(1) [unfolded fresh_set_def, THEN conjunct1, rule_format, OF assms(2,3,4)])

lemma fresh_set_inj:
  assumes "fresh_set u nis" and "(n, v, c) \<in> set (numbered [] nis)"
    and "(n', v', c') \<in> set (numbered [] nis)"
    and "2 \<le> count_list (map fst nis) n" and "2 \<le> count_list (map fst nis) n'"
    and "u n v c = u n' v' c'"
  shows "(n, v, c) = (n', v', c')"
  by (rule assms(1) [unfolded fresh_set_def, THEN conjunct2, rule_format, OF assms(2,3,4,5,6)])

lemma fresh_setI:
  assumes "\<And>n v c k. (n, v, c) \<in> set (numbered [] nis) \<Longrightarrow> 2 \<le> count_list (map fst nis) n \<Longrightarrow>
                u n v c = Inr k \<Longrightarrow> k \<notin> set (map fst nis)"
    and "\<And>n v c n' v' c'. (n, v, c) \<in> set (numbered [] nis) \<Longrightarrow>
                (n', v', c') \<in> set (numbered [] nis) \<Longrightarrow>
                2 \<le> count_list (map fst nis) n \<Longrightarrow> 2 \<le> count_list (map fst nis) n' \<Longrightarrow>
                u n v c = u n' v' c' \<Longrightarrow> (n, v, c) = (n', v', c')"
  shows "fresh_set u nis"
  unfolding fresh_set_def
proof (intro conjI allI impI)
  fix n v c k
  assume "(n, v, c) \<in> set (numbered [] nis)" "2 \<le> count_list (map fst nis) n" "u n v c = Inr k"
  then show "k \<notin> set (map fst nis)" by (rule assms(1))
next
  fix n v c n' v' c'
  assume "(n, v, c) \<in> set (numbered [] nis)" "(n', v', c') \<in> set (numbered [] nis)"
    "2 \<le> count_list (map fst nis) n" "2 \<le> count_list (map fst nis) n'"
    "u n v c = u n' v' c'"
  then show "(n, v, c) = (n', v', c')" by (rule assms(2))
qed

lemma fresh_keys_set:
  assumes f: "fresh_keys u nis"
  shows "fresh_set u nis"
proof (rule fresh_setI)
  let ?P = "\<lambda>(n, v, c). 2 \<le> count_list (map fst nis) n"
  let ?f = "\<lambda>(n, v, c). u n v c"
  let ?T = "filter ?P (numbered [] nis)"
  from f have d: "distinct (map ?f ?T)"
    by (simp add: fresh_keys_def disambiguated_def)
  from f have i: "set (map ?f ?T) \<inter> Inr ` set (map fst nis) = {}"
    by (simp add: fresh_keys_def disambiguated_def)
  from d have inj: "inj_on ?f (set ?T)" by (simp add: distinct_map)
  {
    fix n v c k
    assume t: "(n, v, c) \<in> set (numbered [] nis)" and two: "2 \<le> count_list (map fst nis) n"
      and key: "u n v c = Inr k"
    show "k \<notin> set (map fst nis)"
    proof
      assume k: "k \<in> set (map fst nis)"
      from t two have "(n, v, c) \<in> set ?T" by simp
      then have "?f (n, v, c) \<in> ?f ` set ?T" by (rule imageI)
      with key have "Inr k \<in> set (map ?f ?T)" by simp
      moreover from k have "Inr k \<in> Inr ` set (map fst nis)" by (rule imageI)
      ultimately have "Inr k \<in> set (map ?f ?T) \<inter> Inr ` set (map fst nis)" by (rule IntI)
      with i show False by simp
    qed
  next
    fix n v c n' v' c'
    assume t: "(n, v, c) \<in> set (numbered [] nis)" and t': "(n', v', c') \<in> set (numbered [] nis)"
      and two: "2 \<le> count_list (map fst nis) n" and two': "2 \<le> count_list (map fst nis) n'"
      and eq: "u n v c = u n' v' c'"
    from t two have a: "(n, v, c) \<in> set ?T" by simp
    from t' two' have b: "(n', v', c') \<in> set ?T" by simp
    from eq have "?f (n, v, c) = ?f (n', v', c')" by simp
    with inj show "(n, v, c) = (n', v', c')" using a b by (rule inj_onD)
  }
qed

lemma fresh_set_prefix:
  assumes f: "fresh_set u (a @ b)"
  shows "fresh_set u a"
proof (rule fresh_setI)
  have sub: "t \<in> set (numbered [] a) \<Longrightarrow> t \<in> set (numbered [] (a @ b))" for t
    by (simp add: numbered_append)
  have cnt: "2 \<le> count_list (map fst a) n \<Longrightarrow> 2 \<le> count_list (map fst (a @ b)) n" for n
    by simp
  {
    fix n v c k
    assume t: "(n, v, c) \<in> set (numbered [] a)" and two: "2 \<le> count_list (map fst a) n"
      and key: "u n v c = Inr k"
    from fresh_set_not_name [OF f sub [OF t] cnt [OF two] key]
    show "k \<notin> set (map fst a)" by simp
  next
    fix n v c n' v' c'
    assume t: "(n, v, c) \<in> set (numbered [] a)" and t': "(n', v', c') \<in> set (numbered [] a)"
      and two: "2 \<le> count_list (map fst a) n" and two': "2 \<le> count_list (map fst a) n'"
      and eq: "u n v c = u n' v' c'"
    show "(n, v, c) = (n', v', c')"
      by (rule fresh_set_inj [OF f sub [OF t] sub [OF t'] cnt [OF two] cnt [OF two'] eq])
  }
qed

lemma map_of_snoc_other: "map_of d n = Some v \<Longrightarrow> map_of (d @ e) n = Some v"
  by (simp add: map_add_def)

lemma map_of_snoc_new: "k \<notin> fst ` set d \<Longrightarrow> map_of (d @ [(k, v)]) k = Some v"
  by (simp add: map_add_def map_of_eq_None_iff [THEN iffD2])

lemma map_of_filter_key:
  "n \<noteq> a \<Longrightarrow> map_of (filter (\<lambda>kv. fst kv \<noteq> a) d) n = map_of d n"
  by (induction d) auto

lemma filter_absent_key: "k \<notin> fst ` set d \<Longrightarrow> filter (\<lambda>kv. fst kv \<noteq> k) d = d"
  by (induction d) auto

lemma length_filter_distinct:
  "distinct (map fst d) \<Longrightarrow> k \<in> fst ` set d \<Longrightarrow>
   Suc (length (filter (\<lambda>kv. fst kv \<noteq> k) d)) = length d"
proof (induction d)
  case Nil
  then show ?case by simp
next
  case (Cons a d)
  show ?case
  proof (cases "fst a = k")
    case True
    with Cons.prems(1) have "k \<notin> fst ` set d" by auto
    then have "filter (\<lambda>kv. fst kv \<noteq> k) d = d" by (rule filter_absent_key)
    with True show ?thesis by simp
  next
    case False
    with Cons.prems(2) have "k \<in> fst ` set d" by auto
    with Cons.IH Cons.prems(1) have "Suc (length (filter (\<lambda>kv. fst kv \<noteq> k) d)) = length d"
      by simp
    with False show ?thesis by simp
  qed
qed

lemma counted_is_name: "count_list xs x = 1 \<Longrightarrow> x \<in> set xs"
  using count_list_0_iff [of xs x] by (cases "x \<in> set xs") simp_all

lemma key_ok_mono:
  assumes "key_ok u nis k" and "k = name \<Longrightarrow> count_list (map fst nis) name \<noteq> 1"
  shows "key_ok u (nis @ [(name, item)]) k"
proof -
  from assms(1) consider
    (once) "count_list (map fst nis) k = 1"
  | (renamed) n v c where "(n, v, c) \<in> set (numbered [] nis)" "2 \<le> count_list (map fst nis) n"
      "u n v c = Inr k"
    unfolding key_ok_def by blast
  then show ?thesis
  proof cases
    case once
    with assms(2) have "k \<noteq> name" by blast
    with once have "count_list (map fst (nis @ [(name, item)])) k = 1" by simp
    then show ?thesis unfolding key_ok_def by (rule disjI1)
  next
    case renamed
    from renamed(1) have "(n, v, c) \<in> set (numbered [] (nis @ [(name, item)]))"
      by (simp add: numbered_snoc)
    moreover from renamed(2) have "2 \<le> count_list (map fst (nis @ [(name, item)])) n" by simp
    ultimately have "\<exists>n v c. (n, v, c) \<in> set (numbered [] (nis @ [(name, item)])) \<and>
       2 \<le> count_list (map fst (nis @ [(name, item)])) n \<and> u n v c = Inr k"
      using renamed(3) by (intro exI conjI)
    then show ?thesis unfolding key_ok_def by (rule disjI2)
  qed
qed

lemma key_ok_renamed:
  assumes "(n, v, c) \<in> set (numbered [] nis)" and "2 \<le> count_list (map fst nis) n"
    and "u n v c = Inr k"
  shows "key_ok u nis k"
proof -
  from assms have "\<exists>n v c. (n, v, c) \<in> set (numbered [] nis) \<and>
       2 \<le> count_list (map fst nis) n \<and> u n v c = Inr k"
    by (intro exI conjI)
  then show ?thesis unfolding key_ok_def by (rule disjI2)
qed

text \<open>A key produced for a colliding item of the longer run is not a key of the registry yet.\<close>

lemma new_key_absent:
  assumes fr: "fresh_set u (nis @ [(name, item)])"
    and keys: "\<And>k. k \<in> fst ` set ret \<Longrightarrow> key_ok u nis k"
    and t: "(n, v, c) \<in> set (numbered [] (nis @ [(name, item)]))"
    and two: "2 \<le> count_list (map fst (nis @ [(name, item)])) n"
    and key: "u n v c = Inr k"
    and new: "(n, v, c) \<in> set (numbered [] nis) \<Longrightarrow> 2 \<le> count_list (map fst nis) n \<Longrightarrow> False"
  shows "k \<notin> fst ` set ret"
proof
  assume "k \<in> fst ` set ret"
  then have "key_ok u nis k" by (rule keys)
  then consider
    (once) "count_list (map fst nis) k = 1"
  | (renamed) n0 v0 c0 where "(n0, v0, c0) \<in> set (numbered [] nis)"
      "2 \<le> count_list (map fst nis) n0" "u n0 v0 c0 = Inr k"
    unfolding key_ok_def by blast
  then show False
  proof cases
    case once
    then have "k \<in> set (map fst nis)" by (rule counted_is_name)
    then have "k \<in> set (map fst (nis @ [(name, item)]))" by simp
    with fresh_set_not_name [OF fr t two key] show False by blast
  next
    case renamed
    from renamed(1) have t0: "(n0, v0, c0) \<in> set (numbered [] (nis @ [(name, item)]))"
      by (simp add: numbered_snoc)
    from renamed(2) have two0: "2 \<le> count_list (map fst (nis @ [(name, item)])) n0" by simp
    from renamed(3) key have "u n0 v0 c0 = u n v c" by simp
    from fresh_set_inj [OF fr t0 t two0 two this] have "(n0, v0, c0) = (n, v, c)" .
    with renamed(1,2) have "(n, v, c) \<in> set (numbered [] nis)" "2 \<le> count_list (map fst nis) n"
      by simp_all
    then show False by (rule new)
  qed
qed

lemma run_invI:
  assumes "length ret = length nis" and "distinct (map fst ret)"
    and "\<And>k. k \<in> fst ` set ret \<Longrightarrow> key_ok u nis k"
    and "\<And>n. count_list (map fst nis) n = 1 \<Longrightarrow>
           \<exists>v. (n, v, 1) \<in> set (numbered [] nis) \<and> map_of ret n = Some v"
  shows "run_inv u nis ret"
  unfolding run_inv_def
proof (intro conjI allI impI)
  show "length ret = length nis" by (rule assms(1))
  show "distinct (map fst ret)" by (rule assms(2))
next
  fix k assume "k \<in> fst ` set ret"
  then show "key_ok u nis k" by (rule assms(3))
next
  fix n assume "count_list (map fst nis) n = 1"
  then show "\<exists>v. (n, v, 1) \<in> set (numbered [] nis) \<and> map_of ret n = Some v" by (rule assms(4))
qed

lemma run_inv_length: "run_inv u nis ret \<Longrightarrow> length ret = length nis"
  unfolding run_inv_def by (rule conjunct1)

lemma run_inv_distinct: "run_inv u nis ret \<Longrightarrow> distinct (map fst ret)"
  unfolding run_inv_def by (rule conjunct2 [THEN conjunct1])

lemma run_inv_key:
  assumes "run_inv u nis ret" and "k \<in> fst ` set ret"
  shows "key_ok u nis k"
  by (rule assms(1) [unfolded run_inv_def, THEN conjunct2, THEN conjunct2, THEN conjunct1,
        rule_format, OF assms(2)])

lemma run_inv_once:
  assumes "run_inv u nis ret" and "count_list (map fst nis) n = 1"
  shows "\<exists>v. (n, v, 1) \<in> set (numbered [] nis) \<and> map_of ret n = Some v"
  by (rule assms(1) [unfolded run_inv_def, THEN conjunct2, THEN conjunct2, THEN conjunct2,
        rule_format, OF assms(2)])

lemma new_key_absent_inv:
  assumes fr: "fresh_set u (nis @ [(name, item)])"
    and inv: "run_inv u nis ret"
    and t: "(n, v, c) \<in> set (numbered [] (nis @ [(name, item)]))"
    and two: "2 \<le> count_list (map fst (nis @ [(name, item)])) n"
    and key: "u n v c = Inr k"
    and new: "(n, v, c) \<in> set (numbered [] nis) \<Longrightarrow> 2 \<le> count_list (map fst nis) n \<Longrightarrow> False"
  shows "k \<notin> fst ` set ret"
proof (rule new_key_absent [OF fr _ t two key])
  fix k' assume "k' \<in> fst ` set ret"
  then show "key_ok u nis k'" by (rule run_inv_key [OF inv])
next
  assume "(n, v, c) \<in> set (numbered [] nis)" "2 \<le> count_list (map fst nis) n"
  then show False by (rule new)
qed

lemma insert_item_cases:
  assumes "insert_item u ret counter name item = Inr ret'"
  obtains
    (first) "counter name = None" "ret' = od_set name item ret"
  | (second) prev k1 k2 where "counter name = Some 1"
      "map_of ret name = Some prev" "u name prev 1 = Inr k1" "u name item 2 = Inr k2"
      "ret' = od_set k2 item (filter (\<lambda>kv. fst kv \<noteq> name) (od_set k1 prev ret))"
  | (later) c k where "counter name = Some c" "c \<noteq> 1"
      "u name item (c + 1) = Inr k" "ret' = od_set k item ret"
  using insert_item_Inr [OF assms]
  apply (elim conjE disjE exE)
    apply (erule (1) first)
   apply (rule second; assumption)
  apply (rule later; assumption)
  done

lemma run_inv_step:
  fixes u :: "'v pyval \<Rightarrow> 'v pyval \<Rightarrow> nat \<Rightarrow> error + 'v pyval"
  assumes inv: "run_inv u nis ret"
    and fr: "fresh_set u (nis @ [(name, item)])"
    and ins: "insert_item u ret (loop_counter nis Map.empty) name item = Inr ret'"
  shows "run_inv u (nis @ [(name, item)]) ret'"
proof -
  let ?c = "count_list (map fst nis) name"
  let ?P = "nis @ [(name, item)]"
  note len = run_inv_length [OF inv] and dist = run_inv_distinct [OF inv]
    and keys = run_inv_key [OF inv] and once = run_inv_once [OF inv]
  have cnt: "loop_counter nis Map.empty name = (if ?c = 0 then None else Some ?c)"
    by (rule loop_counter_empty)
  have tnew: "(name, item, Suc ?c) \<in> set (numbered [] ?P)"
    by (simp add: numbered_snoc)
  have told: "t \<in> set (numbered [] nis) \<Longrightarrow> t \<in> set (numbered [] ?P)" for t
    by (simp add: numbered_snoc)
  have cnt_name: "count_list (map fst ?P) name = Suc ?c" by simp
  have cnt_other: "n \<noteq> name \<Longrightarrow> count_list (map fst ?P) n = count_list (map fst nis) n" for n
    by simp
  have name_in: "name \<in> set (map fst ?P)" by simp
  have dist': "distinct (map fst ret')" by (rule insert_item_distinct [OF ins dist])
  have once_old: "\<exists>v. (n, v, 1) \<in> set (numbered [] ?P) \<and> map_of ret n = Some v"
    if "n \<noteq> name" and "count_list (map fst ?P) n = 1" for n
  proof -
    from that cnt_other [of n] have "count_list (map fst nis) n = 1" by simp
    from once [OF this] obtain v where "(n, v, 1) \<in> set (numbered [] nis)" "map_of ret n = Some v"
      by blast
    with told show ?thesis by blast
  qed
  from ins show ?thesis
  proof (cases rule: insert_item_cases)
    case first
    from first(1) cnt have c0: "?c = 0" by (simp split: if_splits)
    have absent: "name \<notin> fst ` set ret"
    proof
      assume "name \<in> fst ` set ret"
      then have "key_ok u nis name" by (rule keys)
      then consider "?c = 1"
        | n0 v0 c0 where "(n0, v0, c0) \<in> set (numbered [] nis)"
            "2 \<le> count_list (map fst nis) n0" "u n0 v0 c0 = Inr name"
        unfolding key_ok_def by blast
      then show False
      proof cases
        case 1
        with c0 show False by simp
      next
        case 2
        from 2(2) have "2 \<le> count_list (map fst ?P) n0" by simp
        from fresh_set_not_name [OF fr told [OF 2(1)] this 2(3)] name_in show False by blast
      qed
    qed
    then have ret': "ret' = ret @ [(name, item)]"
      unfolding first(2) by (rule od_set_fresh)
    show ?thesis
    proof (rule run_invI)
      show "length ret' = length ?P" by (simp add: ret' len)
      show "distinct (map fst ret')" by (rule dist')
    next
      fix k assume "k \<in> fst ` set ret'"
      then have "k = name \<or> k \<in> fst ` set ret" by (auto simp add: ret')
      then show "key_ok u ?P k"
      proof
        assume "k = name"
        with c0 have "count_list (map fst ?P) k = 1" by simp
        then show ?thesis unfolding key_ok_def by (rule disjI1)
      next
        assume "k \<in> fst ` set ret"
        then have "key_ok u nis k" by (rule keys)
        then show ?thesis by (rule key_ok_mono) (simp add: c0)
      qed
    next
      fix n assume n: "count_list (map fst ?P) n = 1"
      show "\<exists>v. (n, v, 1) \<in> set (numbered [] ?P) \<and> map_of ret' n = Some v"
      proof (cases "n = name")
        case True
        from tnew c0 have "(name, item, 1) \<in> set (numbered [] ?P)" by simp
        moreover from absent have "map_of ret' name = Some item"
          unfolding ret' by (rule map_of_snoc_new)
        ultimately show ?thesis unfolding True by blast
      next
        case False
        from once_old [OF False n] obtain v where
          v: "(n, v, 1) \<in> set (numbered [] ?P)" "map_of ret n = Some v" by blast
        from v(2) have "map_of ret' n = Some v" unfolding ret' by (rule map_of_snoc_other)
        with v(1) show ?thesis by blast
      qed
    qed
  next
    case (second prev k1 k2)
    from second(1) cnt have c1: "?c = 1" by (simp split: if_splits)
    from once [OF c1] second(2) have t1old: "(name, prev, 1) \<in> set (numbered [] nis)" by auto
    then have t1: "(name, prev, 1) \<in> set (numbered [] ?P)" by (rule told)
    from tnew c1 have t2: "(name, item, 2) \<in> set (numbered [] ?P)" by (simp add: eval_nat_numeral)
    from c1 have two: "2 \<le> count_list (map fst ?P) name" by simp
    have notold: "2 \<le> count_list (map fst nis) name \<Longrightarrow> False" using c1 by simp
    have notold1: "(name, prev, 1) \<in> set (numbered [] nis) \<Longrightarrow>
      2 \<le> count_list (map fst nis) name \<Longrightarrow> False" by (rule notold)
    have notold2: "(name, item, 2) \<in> set (numbered [] nis) \<Longrightarrow>
      2 \<le> count_list (map fst nis) name \<Longrightarrow> False" by (rule notold)
    from fresh_set_not_name [OF fr t1 two second(3)] name_in have k1n: "k1 \<noteq> name" by blast
    from fresh_set_not_name [OF fr t2 two second(4)] name_in have k2n: "k2 \<noteq> name" by blast
    have k12: "k1 \<noteq> k2"
    proof
      assume "k1 = k2"
      with second(3,4) have "u name prev 1 = u name item 2" by simp
      from fresh_set_inj [OF fr t1 t2 two two this] show False by simp
    qed
    have k1a: "k1 \<notin> fst ` set ret"
      by (rule new_key_absent_inv [OF fr inv t1 two second(3) notold1])
    have k2a: "k2 \<notin> fst ` set ret"
      by (rule new_key_absent_inv [OF fr inv t2 two second(4) notold2])
    from second(2) have name_key: "name \<in> fst ` set ret" by (rule map_of_keys)
    let ?rest = "filter (\<lambda>kv. fst kv \<noteq> name) ret"
    from k1a have s1: "od_set k1 prev ret = ret @ [(k1, prev)]" by (rule od_set_fresh)
    from k1n have s2: "filter (\<lambda>kv. fst kv \<noteq> name) (ret @ [(k1, prev)]) = ?rest @ [(k1, prev)]"
      by simp
    from k2a k12 have "k2 \<notin> fst ` set (?rest @ [(k1, prev)])" by auto
    then have s3: "od_set k2 item (?rest @ [(k1, prev)]) = (?rest @ [(k1, prev)]) @ [(k2, item)]"
      by (rule od_set_fresh)
    have ret': "ret' = ?rest @ [(k1, prev), (k2, item)]"
      unfolding second(5) s1 s2 s3 by simp
    have lrest: "Suc (length ?rest) = length ret"
      by (rule length_filter_distinct [OF dist name_key])
    show ?thesis
    proof (rule run_invI)
      from lrest len show "length ret' = length ?P" by (simp add: ret')
      show "distinct (map fst ret')" by (rule dist')
    next
      fix k assume "k \<in> fst ` set ret'"
      then have "k = k1 \<or> k = k2 \<or> (k \<in> fst ` set ret \<and> k \<noteq> name)"
        by (auto simp add: ret')
      then show "key_ok u ?P k"
      proof (elim disjE conjE)
        assume "k = k1"
        with second(3) have "u name prev 1 = Inr k" by simp
        with t1 two show ?thesis by (rule key_ok_renamed)
      next
        assume "k = k2"
        with second(4) have "u name item 2 = Inr k" by simp
        with t2 two show ?thesis by (rule key_ok_renamed)
      next
        assume "k \<in> fst ` set ret" and ne: "k \<noteq> name"
        then have "key_ok u nis k" by (simp only: keys)
        then show ?thesis by (rule key_ok_mono) (simp add: ne)
      qed
    next
      fix n assume n: "count_list (map fst ?P) n = 1"
      with c1 have ne: "n \<noteq> name" by auto
      from once_old [OF ne n] obtain v where
        v: "(n, v, 1) \<in> set (numbered [] ?P)" "map_of ret n = Some v" by blast
      from v(2) have "map_of ?rest n = Some v" by (simp only: map_of_filter_key [OF ne])
      then have "map_of ret' n = Some v" unfolding ret' by (rule map_of_snoc_other)
      with v(1) show "\<exists>v. (n, v, 1) \<in> set (numbered [] ?P) \<and> map_of ret' n = Some v" by blast
    qed
  next
    case (later c k)
    from later(1,2) cnt have c2: "2 \<le> ?c" and cc: "c = ?c" by (simp_all split: if_splits)
    from later(3) cc have key: "u name item (Suc ?c) = Inr k" by simp
    from c2 have two: "2 \<le> count_list (map fst ?P) name" by simp
    have notold: "(name, item, Suc ?c) \<in> set (numbered [] nis) \<Longrightarrow>
      2 \<le> count_list (map fst nis) name \<Longrightarrow> False"
      using numbered_bound [of name item "Suc ?c" "[]" nis] by simp
    have ka: "k \<notin> fst ` set ret"
      by (rule new_key_absent_inv [OF fr inv tnew two key notold])
    then have ret': "ret' = ret @ [(k, item)]"
      unfolding later(4) by (rule od_set_fresh)
    show ?thesis
    proof (rule run_invI)
      show "length ret' = length ?P" by (simp add: ret' len)
      show "distinct (map fst ret')" by (rule dist')
    next
      fix k' assume "k' \<in> fst ` set ret'"
      then have "k' = k \<or> k' \<in> fst ` set ret" by (auto simp add: ret')
      then show "key_ok u ?P k'"
      proof
        assume "k' = k"
        with key have "u name item (Suc ?c) = Inr k'" by simp
        with tnew two show ?thesis by (rule key_ok_renamed)
      next
        assume "k' \<in> fst ` set ret"
        then have "key_ok u nis k'" by (rule keys)
        then show ?thesis by (rule key_ok_mono) (use c2 in simp)
      qed
    next
      fix n assume n: "count_list (map fst ?P) n = 1"
      with c2 have ne: "n \<noteq> name" by auto
      from once_old [OF ne n] obtain v where
        v: "(n, v, 1) \<in> set (numbered [] ?P)" "map_of ret n = Some v" by blast
      from v(2) have "map_of ret' n = Some v" unfolding ret' by (rule map_of_snoc_other)
      with v(1) show "\<exists>v. (n, v, 1) \<in> set (numbered [] ?P) \<and> map_of ret' n = Some v" by blast
    qed
  qed
qed

lemma run_inv_empty: "run_inv u [] []"
  by (rule run_invI) simp_all

lemma run_inv_loop:
  fixes u :: "'v pyval \<Rightarrow> 'v pyval \<Rightarrow> nat \<Rightarrow> error + 'v pyval"
  shows "to_dict_loop u d 0 xs [] Map.empty = Inr ret \<Longrightarrow> fresh_set u (named_items d 0 xs) \<Longrightarrow>
         run_inv u (named_items d 0 xs) ret"
proof (induction xs arbitrary: ret rule: rev_induct)
  case Nil
  then show ?case by (simp add: run_inv_empty)
next
  case (snoc x xs)
  from snoc.prems(1) obtain ret1 name item where
    l: "to_dict_loop u d 0 xs [] Map.empty = Inr ret1" and
    un: "unpack_item d (length xs) x = Inr (name, item)" and
    ins: "insert_item u ret1 (loop_counter (named_items d 0 xs) Map.empty) name item = Inr ret"
    by (auto simp add: loop_snoc bind_err_Inr_iff)
  have len: "length (named_items d 0 xs) = length xs"
    using l by (rule loop_Inr_named_items)
  have names: "named_items d 0 (xs @ [x]) = named_items d 0 xs @ [(name, item)]"
    using un by (simp add: named_items_append [OF len])
  from snoc.prems(2) have fr: "fresh_set u (named_items d 0 xs @ [(name, item)])"
    by (simp only: names)
  then have "fresh_set u (named_items d 0 xs)" by (rule fresh_set_prefix)
  with l have "run_inv u (named_items d 0 xs) ret1" by (rule snoc.IH)
  from this fr ins have "run_inv u (named_items d 0 xs @ [(name, item)]) ret"
    by (rule run_inv_step)
  then show ?case by (simp only: names)
qed

lemma loop_size:
  fixes u :: "'v pyval \<Rightarrow> 'v pyval \<Rightarrow> nat \<Rightarrow> error + 'v pyval"
  assumes l: "to_dict_loop u d 0 xs [] Map.empty = Inr reg"
  shows "distinct (map fst reg) \<and> length reg \<le> length xs \<and>
         (fresh_keys u (named_items d 0 xs) \<longrightarrow> length reg = length xs)"
proof (intro conjI impI)
  from loop_distinct [OF l] show "distinct (map fst reg)" by simp
  from loop_length [OF l] show "length reg \<le> length xs" by simp
next
  assume "fresh_keys u (named_items d 0 xs)"
  then have "fresh_set u (named_items d 0 xs)" by (rule fresh_keys_set)
  with l have "run_inv u (named_items d 0 xs) reg" by (rule run_inv_loop)
  then have "length reg = length (named_items d 0 xs)" by (rule run_inv_length)
  with loop_Inr_named_items [OF l] show "length reg = length xs" by simp
qed

lemma priv_to_dict_loop:
  assumes "ds \<noteq> PyNone" and "\<And>k kvs. ds \<noteq> PyDict k kvs"
  shows "priv_to_dict ds u d = to_dict_loop u d 0 (spec_items ds) [] Map.empty"
    and "item_count ds = length (spec_items ds)"
    and "collision_free u d ds = fresh_keys u (named_items d 0 (spec_items ds))"
  using assms
  by (cases ds; simp add: priv_to_dict_def spec_items_def item_count_def collision_free_def)+

text \<open>
  The naming functions of \<^verbatim>\<open>to_dict\<close> itself lose an entry when an explicit name looks
  like a disambiguated one: three items give two entries.
\<close>

theorem entries_lost:
  "to_dict type_name
     (PyList [PyTuple [PyStr ''a.1'', PyInt 1], PyTuple [PyStr ''a'', PyInt 2],
              PyTuple [PyStr ''a'', PyInt 3 :: int pyval]]) None
     = Inr [(PyStr ''a.1'', PyInt 2), (PyStr ''a.2'', PyInt 3)] \<and>
   item_count
     (PyList [PyTuple [PyStr ''a.1'', PyInt 1], PyTuple [PyStr ''a'', PyInt 2],
              PyTuple [PyStr ''a'', PyInt 3 :: int pyval]]) = 3"
  by (simp add: to_dict_def item_count_def dict_unambiguous_name_fn_def dict_default_name_fn_def
      normalizer_defs)

text \<open>
  So do those of \<^verbatim>\<open>to_metric_dict\<close>, whose disambiguated name ignores the count: two
  metrics of one class with the same \<^verbatim>\<open>pred_name\<close> and \<^verbatim>\<open>label_name\<close> give one entry.
\<close>

lemma equal_metrics_collapse:
  "to_metric_dict str_of
     (PyList [PyMetric \<lparr>class_module = ''texar.torch.run.metric'', class_name = ''Accuracy'',
                pred_name = ''preds'', label_name = Some ''labels'', cur_value = 1::int,
                better = (\<lambda>a b. None)\<rparr>,
              PyMetric \<lparr>class_module = ''texar.torch.run.metric'', class_name = ''Accuracy'',
                pred_name = ''preds'', label_name = Some ''labels'', cur_value = 2,
                better = (\<lambda>a b. None)\<rparr>])
     = Inr [(PyStr ''Accuracy_preds_labels'',
             PyMetric \<lparr>class_module = ''texar.torch.run.metric'', class_name = ''Accuracy'',
                pred_name = ''preds'', label_name = Some ''labels'', cur_value = 2,
                better = (\<lambda>a b. None)\<rparr>)]"
  by (simp add: metric_dict_defs normalizer_defs)

text \<open>
  C1, as the code has it. The registry that the normalizer returns has no duplicate keys
  and at most as many entries as the input has items. It has exactly as many when the
  input is \<^verbatim>\<open>None\<close>, a dictionary, or a single item or list in which the keys that
  \<^verbatim>\<open>unambiguous_name_fn\<close> gives to the colliding items are pairwise distinct and differ
  from every name of the input.
\<close>

theorem registry_size:
  fixes u :: "'v pyval \<Rightarrow> 'v pyval \<Rightarrow> nat \<Rightarrow> error + 'v pyval"
  assumes "priv_to_dict ds u d = Inr reg"
  shows "distinct (map fst reg) \<and> length reg \<le> item_count ds \<and>
         (collision_free u d ds \<longrightarrow> length reg = item_count ds)"
proof (cases "ds = PyNone \<or> (\<exists>k kvs. ds = PyDict k kvs)")
  case False
  then have a: "ds \<noteq> PyNone" and b: "\<And>k kvs. ds \<noteq> PyDict k kvs" by simp_all
  note eqs = priv_to_dict_loop [OF a b]
  from assms have "to_dict_loop u d 0 (spec_items ds) [] Map.empty = Inr reg"
    by (simp only: eqs(1))
  from loop_size [OF this] show ?thesis by (simp add: eqs(2,3))
next
  case True
  then show ?thesis
  proof
    assume "ds = PyNone"
    with assms show ?thesis by (simp add: priv_to_dict_def item_count_def)
  next
    assume "\<exists>k kvs. ds = PyDict k kvs"
    then obtain k kvs where ds: "ds = PyDict k kvs" by blast
    with assms have reg: "reg = od_of_items kvs" by (simp add: priv_to_dict_def)
    have "distinct (map fst reg)"
      unfolding reg od_of_items_def by (rule fold_od_set_distinct_keys) simp
    moreover have "length reg \<le> length kvs"
      unfolding reg od_of_items_def using fold_od_set_length [of kvs "[]"] by simp
    moreover have "distinct (map fst kvs) \<Longrightarrow> length reg = length kvs"
      unfolding reg by (simp add: od_of_items_distinct)
    ultimately show ?thesis by (simp add: ds item_count_def collision_free_def)
  qed
qed

theorem registry_size_witness:
  "priv_to_dict (PyList [PyInt 5, PyInt 5, PyInt 5])
     (dict_unambiguous_name_fn type_name) (dict_default_name_fn (Some ''m''))
     = Inr [(PyStr ''m.1'' :: int pyval, PyInt 5 :: int pyval), (PyStr ''m.2'', PyInt 5),
            (PyStr ''m.3'', PyInt 5)] \<and>
   collision_free (dict_unambiguous_name_fn type_name) (dict_default_name_fn (Some ''m''))
     (PyList [PyInt 5, PyInt 5, PyInt 5 :: int pyval]) \<and>
   length [(PyStr ''m.1'' :: int pyval, PyInt 5 :: int pyval), (PyStr ''m.2'', PyInt 5),
            (PyStr ''m.3'', PyInt 5)] = item_count (PyList [PyInt 5, PyInt 5, PyInt 5 :: int pyval])"
proof -
  let ?u = "dict_unambiguous_name_fn type_name :: int pyval \<Rightarrow> int pyval \<Rightarrow> nat \<Rightarrow> error + int pyval"
  let ?d = "dict_default_name_fn (Some ''m'') :: nat \<Rightarrow> int pyval \<Rightarrow> error + int pyval"
  let ?ds = "PyList [PyInt 5, PyInt 5, PyInt 5 :: int pyval]"
  let ?reg = "[(PyStr ''m.1'' :: int pyval, PyInt 5 :: int pyval), (PyStr ''m.2'', PyInt 5),
            (PyStr ''m.3'', PyInt 5)]"
  note defs = dict_unambiguous_name_fn_def dict_default_name_fn_def normalizer_defs
  have run: "priv_to_dict ?ds ?u ?d = Inr ?reg" by (simp add: defs)
  have free: "collision_free ?u ?d ?ds"
    by (simp add: collision_free_def spec_items_def fresh_keys_def disambiguated_def defs)
  from registry_size [OF run] free have "length ?reg = item_count ?ds" by blast
  with run free show ?thesis by (intro conjI)
qed

section \<open>The normalizer on its simple inputs\<close>

text \<open>
  C5. With \<^verbatim>\<open>default_name_fn\<close> the constant \<^verbatim>\<open>"m"\<close> and \<^verbatim>\<open>unambiguous_name_fn\<close> returning
  \<^verbatim>\<open>f"{name}.{count}"\<close>, the list \<^verbatim>\<open>[5, 5, 5]\<close> is normalized to the registry with the
  keys \<^verbatim>\<open>"m.1"\<close>, \<^verbatim>\<open>"m.2"\<close>, \<^verbatim>\<open>"m.3"\<close>, in that order, each mapped to 5. The same
  holds of \<^verbatim>\<open>to_dict([5, 5, 5], "m")\<close>, whose naming functions these are.
\<close>

theorem normalize_5_5_5:
  "priv_to_dict (PyList [PyInt 5, PyInt 5, PyInt 5])
     (\<lambda>name v cnt. Inr (PyStr (format_name str_of name @ ''.'' @ str_nat cnt)))
     (\<lambda>idx v. Inr (PyStr ''m''))
   = Inr [(PyStr ''m.1'', PyInt 5), (PyStr ''m.2'', PyInt 5), (PyStr ''m.3'', PyInt 5)]
   \<and> to_dict str_of (PyList [PyInt 5, PyInt 5, PyInt 5]) (Some ''m'')
   = Inr [(PyStr ''m.1'', PyInt 5), (PyStr ''m.2'', PyInt 5), (PyStr ''m.3'', PyInt 5)]"
  by (simp add: to_dict_def dict_unambiguous_name_fn_def dict_default_name_fn_def normalizer_defs)

text \<open>
  C7. A keyed mapping (a dictionary, whose keys are pairwise distinct) is returned with the
  same items in the same order, whatever the naming functions are; so normalizing the
  result again, with any naming functions, returns it unchanged.
\<close>

theorem keyed_mapping_unchanged:
  assumes "distinct (map fst kvs)"
  shows "priv_to_dict (PyDict k kvs) u d = Inr kvs \<and>
         bind_err (priv_to_dict (PyDict k kvs) u d)
           (\<lambda>reg. priv_to_dict (PyDict OrderedDictKind reg) u' d') = Inr kvs"
  using assms by (simp add: priv_to_dict_def bind_err_def od_of_items_distinct)

theorem keyed_mapping_unchanged_witness:
  "distinct (map fst [(PyStr ''acc'', PyInt 1), (PyStr ''f1'', PyInt (2::int))]) \<and>
   priv_to_dict (PyDict OrderedDictKind [(PyStr ''acc'', PyInt 1), (PyStr ''f1'', PyInt (2::int))])
     (\<lambda>n v c. Inl KeyError) (\<lambda>i v. Inl KeyError)
   = Inr [(PyStr ''acc'', PyInt 1), (PyStr ''f1'', PyInt 2)]"
proof -
  have h: "distinct (map fst [(PyStr ''acc'', PyInt 1), (PyStr ''f1'', PyInt (2::int))])"
    by simp
  show ?thesis using h keyed_mapping_unchanged [OF h] by blast
qed




section \<open>Resolving \<^verbatim>\<open>None\<close>\<close>

text \<open>
  C10. \<^verbatim>\<open>to_instance\<close> returns \<^verbatim>\<open>None\<close>, and raises nothing, when the instance is
  \<^verbatim>\<open>None\<close>, for every type, module list and extra keyword arguments.
\<close>

theorem to_instance_None:
  "to_instance get_instance isinstance str_of str_of_type typ PyNone modules extra_kwargs
     = Inr PyNone"
  by (simp add: to_instance_def)

section \<open>The metric policy\<close>


lemma check_metrics_first:
  "\<not> list_all is_Metric vs \<Longrightarrow>
   \<exists>pre v rest. vs = pre @ v # rest \<and> list_all is_Metric pre \<and> \<not> is_Metric v \<and>
     check_metrics vs = Inl (ValueError (''All metrics must be of class Metric, but found '' @ type_repr v))"
proof (induction vs)
  case Nil
  then show ?case by simp
next
  case (Cons a vs)
  show ?case
  proof (cases "is_Metric a")
    case False
    then have "a # vs = [] @ a # vs \<and> list_all is_Metric [] \<and> \<not> is_Metric a \<and>
      check_metrics (a # vs) = Inl (ValueError (''All metrics must be of class Metric, but found '' @ type_repr a))"
      by simp
    then show ?thesis by blast
  next
    case True
    with Cons.prems have "\<not> list_all is_Metric vs" by simp
    from Cons.IH [OF this] obtain pre v rest where
      h: "vs = pre @ v # rest" "list_all is_Metric pre" "\<not> is_Metric v"
         "check_metrics vs = Inl (ValueError (''All metrics must be of class Metric, but found '' @ type_repr v))"
      by blast
    with True have "a # vs = (a # pre) @ v # rest \<and> list_all is_Metric (a # pre) \<and> \<not> is_Metric v \<and>
      check_metrics (a # vs) = Inl (ValueError (''All metrics must be of class Metric, but found '' @ type_repr v))"
      by simp
    then show ?thesis by blast
  qed
qed

text \<open>
  C6, as the code has it. A plain \<^verbatim>\<open>dict\<close> is rejected with the \<^verbatim>\<open>ValueError\<close> that asks
  for an \<^verbatim>\<open>OrderedDict\<close>. When the normalizer returns a registry with a value that is not a
  \<^verbatim>\<open>Metric\<close>, \<^verbatim>\<open>to_metric_dict\<close> raises the \<^verbatim>\<open>ValueError\<close> whose message gives the type of
  the first such value, in registry order. In both cases no registry is returned.
\<close>

theorem to_metric_dict_errors:
  "(is_plain_dict ds \<longrightarrow>
      to_metric_dict str_of ds = Inl (ValueError ''Metrics dictionary must be of type OrderedDict'')) \<and>
   (\<forall>reg. \<not> is_plain_dict ds \<and>
          priv_to_dict ds (metric_unambiguous_name_fn str_of) metric_default_name_fn = Inr reg \<and>
          \<not> list_all is_Metric (map snd reg) \<longrightarrow>
      (\<exists>pre v rest. map snd reg = pre @ v # rest \<and> list_all is_Metric pre \<and> \<not> is_Metric v \<and>
         to_metric_dict str_of ds =
           Inl (ValueError (''All metrics must be of class Metric, but found '' @ type_repr v))))"
proof (intro conjI allI impI)
  assume "is_plain_dict ds"
  then show "to_metric_dict str_of ds = Inl (ValueError ''Metrics dictionary must be of type OrderedDict'')"
    by (simp add: to_metric_dict_def)
next
  fix reg
  assume h: "\<not> is_plain_dict ds \<and>
          priv_to_dict ds (metric_unambiguous_name_fn str_of) metric_default_name_fn = Inr reg \<and>
          \<not> list_all is_Metric (map snd reg)"
  then obtain pre v rest where
    f: "map snd reg = pre @ v # rest" "list_all is_Metric pre" "\<not> is_Metric v"
       "check_metrics (map snd reg) = Inl (ValueError (''All metrics must be of class Metric, but found '' @ type_repr v))"
    using check_metrics_first [of "map snd reg"] by blast
  from h f(4) have "to_metric_dict str_of ds =
           Inl (ValueError (''All metrics must be of class Metric, but found '' @ type_repr v))"
    by (simp add: to_metric_dict_def bind_err_def)
  with f show "\<exists>pre v rest. map snd reg = pre @ v # rest \<and> list_all is_Metric pre \<and> \<not> is_Metric v \<and>
         to_metric_dict str_of ds =
           Inl (ValueError (''All metrics must be of class Metric, but found '' @ type_repr v))"
    by blast
qed

theorem to_metric_dict_errors_witness:
  "is_plain_dict (PyDict PlainDict [(PyStr ''acc'' :: int pyval, PyInt 1 :: int pyval)]) \<and>
   to_metric_dict type_name (PyDict PlainDict [(PyStr ''acc'' :: int pyval, PyInt 1 :: int pyval)])
     = Inl (ValueError ''Metrics dictionary must be of type OrderedDict'') \<and>
   \<not> is_plain_dict (PyDict OrderedDictKind [(PyStr ''acc'' :: int pyval, PyInt 1 :: int pyval)]) \<and>
   (\<exists>pre v rest. map snd [(PyStr ''acc'' :: int pyval, PyInt 1 :: int pyval)] = pre @ v # rest \<and> list_all is_Metric pre \<and>
       \<not> is_Metric v \<and>
       to_metric_dict type_name (PyDict OrderedDictKind [(PyStr ''acc'' :: int pyval, PyInt 1 :: int pyval)])
         = Inl (ValueError (''All metrics must be of class Metric, but found '' @ type_repr v)))"
proof -
  have a: "is_plain_dict (PyDict PlainDict [(PyStr ''acc'' :: int pyval, PyInt 1 :: int pyval)])"
    by (simp add: is_plain_dict_def)
  have b: "\<not> is_plain_dict (PyDict OrderedDictKind [(PyStr ''acc'' :: int pyval, PyInt 1 :: int pyval)]) \<and>
     priv_to_dict (PyDict OrderedDictKind [(PyStr ''acc'' :: int pyval, PyInt 1 :: int pyval)])
       (metric_unambiguous_name_fn type_name) metric_default_name_fn
       = Inr [(PyStr ''acc'', PyInt 1)] \<and>
     \<not> list_all is_Metric (map snd [(PyStr ''acc'' :: int pyval, PyInt 1 :: int pyval)])"
    by (simp add: is_plain_dict_def is_Metric_def priv_to_dict_def od_of_items_def)
  note plain = to_metric_dict_errors
    [of "PyDict PlainDict [(PyStr ''acc'' :: int pyval, PyInt 1 :: int pyval)]" type_name, THEN conjunct1, rule_format, OF a]
  note ordered = to_metric_dict_errors
    [of "PyDict OrderedDictKind [(PyStr ''acc'' :: int pyval, PyInt 1 :: int pyval)]" type_name,
     THEN conjunct2, rule_format, OF b]
  show ?thesis
    apply (intro conjI)
       apply (rule a)
      apply (rule plain)
     apply (rule b [THEN conjunct1])
    apply (rule ordered)
    done
qed

text \<open>
  The message of that error is built from \<^verbatim>\<open>type(metric)\<close> alone: the offending values 5
  and 6 raise the same error, in which neither value appears.
\<close>

theorem to_metric_dict_message_omits_value:
  "to_metric_dict type_name (PyInt 5 :: int pyval)
     = Inl (ValueError ''All metrics must be of class Metric, but found <class 'int'>'') \<and>
   to_metric_dict type_name (PyInt 6 :: int pyval)
     = Inl (ValueError ''All metrics must be of class Metric, but found <class 'int'>'')"
  by (simp add: metric_dict_defs normalizer_defs)

text \<open>
  The normalizer itself can fail on values that are not metrics: two of them with the same
  default name make \<^verbatim>\<open>unambiguous_name_fn\<close> read \<^verbatim>\<open>pred_name\<close>.
\<close>

lemma to_metric_dict_attribute_error:
  "to_metric_dict str_of (PyList [PyInt 5, PyInt 5]) = Inl (AttributeError ''pred_name'')"
  by (simp add: metric_dict_defs normalizer_defs)

section \<open>The progress tracker's percentage\<close>

text \<open>Evaluating the rounding, and the range in which a quotient has a float.\<close>

lemma round_float_finite:
  assumes "p \<noteq> 0" and "floor_log2 p q = e" and "s = max e (- 1022) - 52"
    and "m = (if 0 \<le> s then round_half_even p (q * 2 ^ nat s)
              else round_half_even (p * 2 ^ nat (- s)) q)"
    and "s < 971 \<or> (s = 971 \<and> m < 2 ^ 53)"
    and "strip_zeros m s = (m', e')"
  shows "round_float neg p q = Some (Finite neg m' e')"
proof -
  from assms(2,3,4) have
    "round_float neg p q =
       (if s < 971 \<or> (s = 971 \<and> m < 2 ^ 53)
        then Some (case strip_zeros m s of (m', e') \<Rightarrow> Finite neg m' e') else None)"
    using assms(1) unfolding round_float_def Let_def by simp
  with assms(5,6) show ?thesis by simp
qed

lemma round_float_overflow:
  assumes "p \<noteq> 0" and "1024 \<le> floor_log2 p q"
  shows "round_float neg p q = None"
  using assms unfolding round_float_def Let_def by simp

lemmas float_eval =
  floor_log2_def round_half_even_def bit_length.simps strip_zeros.simps Let_def

lemma round_float_2_8: "round_float neg 2 8 = Some (Finite neg 1 (- 2))"
  by (rule round_float_finite [where e = "- 2" and s = "- 54" and m = 4503599627370496])
     (simp_all add: float_eval)

lemma round_float_25_1: "round_float neg 25 1 = Some (Finite neg 25 0)"
  by (rule round_float_finite [where e = 4 and s = "- 48" and m = 7036874417766400])
     (simp_all add: float_eval)

lemma round_float_50_200: "round_float neg 50 200 = Some (Finite neg 1 (- 2))"
  by (rule round_float_finite [where e = "- 2" and s = "- 54" and m = 4503599627370496])
     (simp_all add: float_eval)

lemma mul_hundred_quarter: "mul_hundred (Finite neg 1 (- 2)) = Finite neg 25 0"
  by (simp add: mul_hundred_def round_float_25_1 del: One_nat_def)

lemma round_float_7_25: "round_float neg 7 25 = Some (Finite neg 1261007895663739 (- 52))"
  by (rule round_float_finite [where e = "- 2" and s = "- 54" and m = 5044031582654956])
     (simp_all add: float_eval)

lemma round_float_28: 
  "round_float neg 31525197391593475 1125899906842624 = Some (Finite neg 7881299347898369 (- 48))"
  by (rule round_float_finite [where e = 4 and s = "- 48" and m = 7881299347898369])
     (simp_all add: float_eval)

lemma mul_hundred_028:
  "mul_hundred (Finite neg 1261007895663739 (- 52)) = Finite neg 7881299347898369 (- 48)"
  by (simp add: mul_hundred_def round_float_28)

lemma bit_length_double: "0 < n \<Longrightarrow> bit_length (2 * n) = Suc (bit_length n)"
  by (subst bit_length.simps) simp

lemma bit_length_shift: "0 < n \<Longrightarrow> bit_length (n * 2 ^ k) = bit_length n + k"
proof (induction k)
  case 0
  then show ?case by simp
next
  case (Suc k)
  from Suc.prems have "0 < n * 2 ^ k" by simp
  from bit_length_double [OF this] Suc show ?case by (simp add: mult.commute mult.left_commute)
qed

lemma bit_length_one: "bit_length 1 = 1"
  by (simp add: bit_length.simps)

lemma int_true_divide_overflow: "int_true_divide (2 ^ 1024) 1 = Inl OverflowError"
proof -
  have b: "bit_length (1 * 2 ^ 1024) = bit_length 1 + 1024"
    by (rule bit_length_shift) simp
  have e: "floor_log2 (2 ^ 1024) 1 = 1024"
    using b by (simp add: floor_log2_def bit_length_one Let_def)
  have r: "round_float neg (2 ^ 1024) 1 = None" for neg
  proof (rule round_float_overflow)
    show "(2 :: nat) ^ 1024 \<noteq> 0" by simp
    show "1024 \<le> floor_log2 (2 ^ 1024) 1" unfolding e by simp
  qed
  have n: "nat \<bar>2 ^ 1024 :: int\<bar> = 2 ^ 1024" by (simp add: nat_power_eq)
  have n1: "nat \<bar>1 :: int\<bar> = 1" by simp
  show ?thesis by (simp only: int_true_divide_def n n1 r) simp
qed

lemma bit_length_bounds:
  "0 < n \<Longrightarrow> 2 ^ (bit_length n - 1) \<le> n \<and> n < 2 ^ bit_length n"
proof (induction n rule: bit_length.induct)
  case (1 n)
  show ?case
  proof (cases "n div 2 = 0")
    case True
    with "1.prems" have n: "n = 1" by (simp add: div_eq_0_iff)
    have "bit_length 1 = 1" by (simp add: bit_length.simps)
    with n show ?thesis by simp
  next
    case False
    then have pos: "0 < n div 2" by simp
    from "1.prems" have nz: "n \<noteq> 0" by simp
    from "1.IH" [OF nz pos] have
      lo: "2 ^ (bit_length (n div 2) - 1) \<le> n div 2" and hi: "n div 2 < 2 ^ bit_length (n div 2)"
      by simp_all
    have bl: "bit_length n = Suc (bit_length (n div 2))"
      using nz by (subst bit_length.simps) simp
    have blpos: "0 < bit_length (n div 2)"
      using pos by (subst bit_length.simps) simp
    from lo have "2 * 2 ^ (bit_length (n div 2) - 1) \<le> 2 * (n div 2)" by simp
    also have "\<dots> \<le> n" by simp
    finally have "2 ^ Suc (bit_length (n div 2) - 1) \<le> n" by simp
    with blpos have l: "2 ^ bit_length (n div 2) \<le> n" by simp
    from hi have "Suc (n div 2) \<le> 2 ^ bit_length (n div 2)" by simp
    then have "2 * Suc (n div 2) \<le> 2 * 2 ^ bit_length (n div 2)" by simp
    moreover have "n < 2 * Suc (n div 2)" by simp
    ultimately have h: "n < 2 ^ Suc (bit_length (n div 2))" by simp
    from l h show ?thesis by (simp add: bl)
  qed
qed

text \<open>A quotient below \<open>2 ^ j\<close> has an exponent below \<open>j\<close>.\<close>

lemma floor_log2_less:
  assumes p: "0 < p" and q: "0 < q" and lt: "p < 2 ^ j * q"
  shows "floor_log2 p q < int j"
proof -
  let ?k = "int (bit_length p) - int (bit_length q)"
  from bit_length_bounds [OF p] have plo: "2 ^ (bit_length p - 1) \<le> p" by simp
  from bit_length_bounds [OF q] have qhi: "q < 2 ^ bit_length q" by simp
  have "2 ^ j * q < 2 ^ j * 2 ^ bit_length q" using qhi by simp
  with lt have "p < 2 ^ j * 2 ^ bit_length q" by (rule less_trans)
  with plo have "(2::nat) ^ (bit_length p - 1) < 2 ^ j * 2 ^ bit_length q"
    by (rule le_less_trans)
  then have "(2::nat) ^ (bit_length p - 1) < 2 ^ (j + bit_length q)"
    by (simp only: power_add)
  then have "bit_length p - 1 < j + bit_length q" by simp
  then have kle: "?k \<le> int j" by simp
  show ?thesis
  proof (cases "if 0 \<le> ?k then q * 2 ^ nat ?k \<le> p else q \<le> p * 2 ^ nat (- ?k)")
    case False
    then have "floor_log2 p q = ?k - 1" by (simp add: floor_log2_def Let_def)
    with kle show ?thesis by simp
  next
    case True
    then have e: "floor_log2 p q = ?k" by (simp add: floor_log2_def Let_def)
    show ?thesis
    proof (cases "0 \<le> ?k")
      case False
      with e show ?thesis by simp
    next
      case k0: True
      with True have "q * 2 ^ nat ?k \<le> p" by simp
      from this lt have "q * 2 ^ nat ?k < 2 ^ j * q" by (rule le_less_trans)
      then have "q * 2 ^ nat ?k < q * 2 ^ j" by (simp only: mult.commute)
      with q have "(2::nat) ^ nat ?k < 2 ^ j" by simp
      then have "nat ?k < j" by simp
      with k0 e show ?thesis by simp
    qed
  qed
qed

lemma round_float_in_range:
  assumes q: "0 < q" and lt: "p < 2 ^ 1023 * q"
  shows "\<exists>x. round_float neg p q = Some x"
proof (cases "p = 0")
  case True
  then show ?thesis by (simp add: round_float_def)
next
  case False
  then have p: "0 < p" by simp
  from floor_log2_less [OF p q lt] have "floor_log2 p q < 1023" by simp
  then have "max (floor_log2 p q) (- 1022) - 52 < 971" by simp
  with False show ?thesis by (simp add: round_float_def Let_def)
qed

lemma int_true_divide_in_range:
  assumes "s \<noteq> 0" and "\<bar>n\<bar> < 2 ^ 1023 * \<bar>s\<bar>"
  shows "\<exists>x. int_true_divide n s = Inr x"
proof -
  from assms(1) have q: "0 < nat \<bar>s\<bar>" by simp
  from assms(2) have "nat \<bar>n\<bar> < nat (2 ^ 1023 * \<bar>s\<bar>)" by simp
  also have "nat (2 ^ 1023 * \<bar>s\<bar>) = 2 ^ 1023 * nat \<bar>s\<bar>"
    by (simp add: nat_mult_distrib nat_power_eq)
  finally have lt: "nat \<bar>n\<bar> < 2 ^ 1023 * nat \<bar>s\<bar>" .
  from round_float_in_range [OF q lt, of "(n < 0) \<noteq> (s < 0)"] obtain x where
    "round_float ((n < 0) \<noteq> (s < 0)) (nat \<bar>n\<bar>) (nat \<bar>s\<bar>) = Some x" ..
  with assms(1) have "int_true_divide n s = Inr x" by (simp add: int_true_divide_def)
  then show ?thesis ..
qed

lemma progress_Some:
  assumes "size' self = Some s"
  shows "progress self =
           (if s = 0 then Inl ZeroDivisionError
            else case round_float ((n_examples self < 0) \<noteq> (s < 0))
                        (nat \<bar>n_examples self\<bar>) (nat \<bar>s\<bar>) of
                   None \<Rightarrow> Inl OverflowError
                 | Some q \<Rightarrow> Inr (Some (mul_hundred q)))"
  using assms by (simp add: progress_def int_true_divide_def split: option.splits)

lemma progress_float:
  assumes "size' self = Some s" and "s \<noteq> 0"
    and "round_float ((n_examples self < 0) \<noteq> (s < 0)) (nat \<bar>n_examples self\<bar>) (nat \<bar>s\<bar>)
           = Some q"
  shows "progress self = Inr (Some (mul_hundred q))"
  using assms by (simp add: progress_Some)

text \<open>
  A tracker of size 0 has a known total, and \<^verbatim>\<open>progress()\<close> does not return on it: the
  division raises.
\<close>

theorem progress_size_zero:
  "size' (add (ProgressTracker_init (Some 0) (Finite False 0 0)) 50) = Some 0 \<and>
   progress (add (ProgressTracker_init (Some 0) (Finite False 0 0)) 50) = Inl ZeroDivisionError"
  by (simp add: progress_def add_def ProgressTracker_init_def int_true_divide_def)

text \<open>
  C8, as the code has it. \<^verbatim>\<open>progress()\<close> returns \<^verbatim>\<open>None\<close> exactly when the size is
  \<^verbatim>\<open>None\<close>. For the size 0 it raises \<^verbatim>\<open>ZeroDivisionError\<close>. For any other size it
  raises \<^verbatim>\<open>OverflowError\<close> when the quotient \<^verbatim>\<open>n_examples / size\<close> is too large for a float,
  and otherwise returns the float \<^verbatim>\<open>n_examples / size * 100\<close>: the quotient rounded to the
  nearest float, times 100, rounded again. A float is returned whenever
  \<open>\<bar>n_examples\<bar> < 2 ^ 1023 \<times> \<bar>size\<bar>\<close>. A tracker of size 200 reports \<^verbatim>\<open>25.0\<close> after
  \<^verbatim>\<open>add(50)\<close>.
\<close>

theorem progress_value:
  "(progress self = Inr None \<longleftrightarrow> size' self = None) \<and>
   (size' self = Some 0 \<longrightarrow> progress self = Inl ZeroDivisionError) \<and>
   (\<forall>s. size' self = Some s \<and> s \<noteq> 0 \<longrightarrow>
      progress self =
        (case round_float ((n_examples self < 0) \<noteq> (s < 0))
                (nat \<bar>n_examples self\<bar>) (nat \<bar>s\<bar>) of
           None \<Rightarrow> Inl OverflowError
         | Some q \<Rightarrow> Inr (Some (mul_hundred q)))) \<and>
   (\<forall>s. size' self = Some s \<and> s \<noteq> 0 \<and> \<bar>n_examples self\<bar> < 2 ^ 1023 * \<bar>s\<bar> \<longrightarrow>
      (\<exists>x. progress self = Inr (Some x))) \<and>
   progress (add (ProgressTracker_init (Some 200) now) 50) = Inr (Some (Finite False 25 0)) \<and>
   float_val (Finite False 25 0) = Some 25"
proof (intro conjI allI impI)
  show "progress self = Inr None \<longleftrightarrow> size' self = None"
  proof (cases "size' self")
    case None
    then show ?thesis by (simp add: progress_def)
  next
    case (Some s)
    then show ?thesis by (simp add: progress_Some split: option.splits)
  qed
next
  assume "size' self = Some 0"
  then show "progress self = Inl ZeroDivisionError" by (simp add: progress_Some)
next
  fix s assume "size' self = Some s \<and> s \<noteq> 0"
  then show "progress self =
        (case round_float ((n_examples self < 0) \<noteq> (s < 0))
                (nat \<bar>n_examples self\<bar>) (nat \<bar>s\<bar>) of
           None \<Rightarrow> Inl OverflowError
         | Some q \<Rightarrow> Inr (Some (mul_hundred q)))"
    by (simp add: progress_Some)
next
  fix s assume h: "size' self = Some s \<and> s \<noteq> 0 \<and> \<bar>n_examples self\<bar> < 2 ^ 1023 * \<bar>s\<bar>"
  then obtain x where "int_true_divide (n_examples self) s = Inr x"
    using int_true_divide_in_range [of s "n_examples self"] by blast
  with h have "progress self = Inr (Some (mul_hundred x))" by (simp add: progress_def)
  then show "\<exists>x. progress self = Inr (Some x)" ..
next
  have "progress (add (ProgressTracker_init (Some 200) now) 50) =
          Inr (Some (mul_hundred (Finite False 1 (- 2))))"
    by (rule progress_float [where s = 200])
       (simp_all add: add_def ProgressTracker_init_def round_float_50_200 del: One_nat_def)
  then show "progress (add (ProgressTracker_init (Some 200) now) 50) = Inr (Some (Finite False 25 0))"
    by (simp only: mul_hundred_quarter)
next
  show "float_val (Finite False 25 0) = Some 25" by (simp add: float_val_def)
qed

theorem progress_value_witness:
  "size' (add (ProgressTracker_init (Some 8) (Finite False 0 0)) 2) = Some 8 \<and> (8::int) \<noteq> 0 \<and>
   progress (add (ProgressTracker_init (Some 8) (Finite False 0 0)) 2) = Inr (Some (Finite False 25 0)) \<and>
   size' (ProgressTracker_init (Some 0) (Finite False 0 0)) = Some 0 \<and>
   progress (ProgressTracker_init (Some 0) (Finite False 0 0)) = Inl ZeroDivisionError \<and>
   progress (ProgressTracker_init None (Finite False 0 0)) = Inr None"
proof -
  let ?t = "add (ProgressTracker_init (Some 8) (Finite False 0 0)) 2"
  let ?z = "ProgressTracker_init (Some 0) (Finite False 0 0)"
  let ?u = "ProgressTracker_init None (Finite False 0 0)"
  have a: "size' ?t = Some 8 \<and> (8::int) \<noteq> 0"
    by (simp add: add_def ProgressTracker_init_def)
  have n: "n_examples ?t = 2" by (simp add: add_def ProgressTracker_init_def)
  have b: "size' ?z = Some 0" by (simp add: ProgressTracker_init_def)
  have c: "size' ?u = None" by (simp add: ProgressTracker_init_def)
  note t = progress_value [of ?t, THEN conjunct2, THEN conjunct2, THEN conjunct1, rule_format, OF a]
  have a': "progress ?t = Inr (Some (Finite False 25 0))"
    unfolding t n by (simp add: round_float_2_8 mul_hundred_quarter del: One_nat_def)
  note b' = progress_value [of ?z, THEN conjunct2, THEN conjunct1, rule_format, OF b]
  have c': "progress ?u = Inr None"
    using progress_value [of ?u, THEN conjunct1] c by simp
  show ?thesis
    apply (intro conjI)
         apply (rule a [THEN conjunct1])
        apply (rule a [THEN conjunct2])
       apply (rule a')
      apply (rule b)
     apply (rule b')
    apply (rule c')
    done
qed

text \<open>Rounding is visible: 7 of 25 examples are reported as 28.000000000000004.\<close>

lemma progress_7_of_25:
  "progress (add (ProgressTracker_init (Some 25) now) 7)
     = Inr (Some (Finite False 7881299347898369 (- 48))) \<and>
   float_val (Finite False 7881299347898369 (- 48)) = Some (28 + 1 / 2 ^ 48)"
proof -
  have "progress (add (ProgressTracker_init (Some 25) now) 7) =
          Inr (Some (mul_hundred (Finite False 1261007895663739 (- 52))))"
    by (rule progress_float [where s = 25])
       (simp_all add: add_def ProgressTracker_init_def round_float_7_25)
  then have "progress (add (ProgressTracker_init (Some 25) now) 7)
     = Inr (Some (Finite False 7881299347898369 (- 48)))"
    by (simp only: mul_hundred_028)
  moreover have "float_val (Finite False 7881299347898369 (- 48)) = Some (28 + 1 / 2 ^ 48)"
    by (simp add: float_val_def)
  ultimately show ?thesis by (rule conjI)
qed

text \<open>A count of \<open>2 ^ 1024\<close> with size 1 raises \<^verbatim>\<open>OverflowError\<close>.\<close>

lemma progress_overflow:
  "progress (add (ProgressTracker_init (Some 1) now) (2 ^ 1024)) = Inl OverflowError"
proof -
  have "n_examples (add (ProgressTracker_init (Some 1) now) (2 ^ 1024)) = 2 ^ 1024"
    unfolding add_def ProgressTracker_init_def by simp
  moreover have "size' (add (ProgressTracker_init (Some 1) now) (2 ^ 1024)) = Some 1"
    unfolding add_def ProgressTracker_init_def by simp
  ultimately show ?thesis
    unfolding progress_def by (simp only: option.case int_true_divide_overflow bind_err_simps)
qed

section \<open>Comparing metric lists\<close>

lemma gt_loop_decides:
  assumes "\<forall>(n, mt) \<in> set pre. \<exists>x y. od_get sv n = Inr x \<and> od_get ov n = Inr y \<and> better mt x y = None"
    and "od_get sv name = Inr a" and "od_get ov name = Inr b" and "better m a b = Some r"
  shows "gt_loop (pre @ (name, m) # rest) sv ov = Inr r"
  using assms by (induction pre) (auto simp add: bind_err_def)

lemma gt_loop_all_tie:
  assumes "\<forall>(n, mt) \<in> set ms. \<exists>x y. od_get sv n = Inr x \<and> od_get ov n = Inr y \<and> better mt x y = None"
  shows "gt_loop ms sv ov = Inr False"
  using assms by (induction ms) (auto simp add: bind_err_def)

lemma compare_pairs_same: "compare_pairs ms ms = Inr ()"
  by (induction ms) auto

text \<open>
  C4. When the registries are compatible, \<^verbatim>\<open>__gt__\<close> is decided by the first metric, in
  registry order, whose \<^verbatim>\<open>better\<close> does not tie, and it is false when every metric ties.
  So for the metrics \<open>[A, B]\<close>, where \<open>A\<close> ties and \<open>B\<close> finds the first value better, the
  first snapshot is greater than the second.
\<close>

theorem gt_lexicographic:
  "(\<forall>pre name m rest a b r.
      priv_compare_metrics self (AMetricList other) = Inr () \<and>
      metrics self = pre @ (name, m) # rest \<and>
      (\<forall>(n, mt) \<in> set pre. \<exists>x y. od_get (vals self) n = Inr x \<and> od_get (vals other) n = Inr y \<and>
                                   better mt x y = None) \<and>
      od_get (vals self) name = Inr a \<and> od_get (vals other) name = Inr b \<and>
      better m a b = Some r
      \<longrightarrow> MetricList_gt self (AMetricList other) = Inr r) \<and>
   (priv_compare_metrics self (AMetricList other) = Inr () \<and>
    (\<forall>(n, mt) \<in> set (metrics self).
        \<exists>x y. od_get (vals self) n = Inr x \<and> od_get (vals other) n = Inr y \<and> better mt x y = None)
    \<longrightarrow> MetricList_gt self (AMetricList other) = Inr False) \<and>
   (\<forall>na A nb B xa xb ya yb.
      na \<noteq> nb \<and> better A xa ya = None \<and> better B xb yb = Some True
      \<longrightarrow> MetricList_gt (MetricList_init [(na, A), (nb, B)] (Some [(na, xa), (nb, xb)]))
            (AMetricList (MetricList_init [(na, A), (nb, B)] (Some [(na, ya), (nb, yb)]))) = Inr True)"
proof (intro conjI allI impI)
  fix pre name m rest a b r
  assume h: "priv_compare_metrics self (AMetricList other) = Inr () \<and>
      metrics self = pre @ (name, m) # rest \<and>
      (\<forall>(n, mt) \<in> set pre. \<exists>x y. od_get (vals self) n = Inr x \<and> od_get (vals other) n = Inr y \<and>
                                   better mt x y = None) \<and>
      od_get (vals self) name = Inr a \<and> od_get (vals other) name = Inr b \<and>
      better m a b = Some r"
  then have "gt_loop (metrics self) (vals self) (vals other) = Inr r"
    using gt_loop_decides [of pre "vals self" "vals other" name a b m r rest] by simp
  with h show "MetricList_gt self (AMetricList other) = Inr r"
    by (simp add: MetricList_gt_def bind_err_def)
next
  assume h: "priv_compare_metrics self (AMetricList other) = Inr () \<and>
    (\<forall>(n, mt) \<in> set (metrics self).
        \<exists>x y. od_get (vals self) n = Inr x \<and> od_get (vals other) n = Inr y \<and> better mt x y = None)"
  then have "gt_loop (metrics self) (vals self) (vals other) = Inr False"
    using gt_loop_all_tie [of "metrics self" "vals self" "vals other"] by simp
  with h show "MetricList_gt self (AMetricList other) = Inr False"
    by (simp add: MetricList_gt_def bind_err_def)
next
  fix na :: string and A B :: "'b metric" and nb xa xb ya yb
  assume "na \<noteq> nb \<and> better A xa ya = None \<and> better B xb yb = Some True"
  then show "MetricList_gt (MetricList_init [(na, A), (nb, B)] (Some [(na, xa), (nb, xb)]))
            (AMetricList (MetricList_init [(na, A), (nb, B)] (Some [(na, ya), (nb, yb)]))) = Inr True"
    by (auto simp add: MetricList_gt_def MetricList_init_def priv_compare_metrics_def bind_err_def
        od_get_def)
qed

theorem gt_lexicographic_witness:
  "MetricList_gt
     (MetricList_init
        [(''Accuracy'', \<lparr>class_module = ''texar.torch.run.metric'', class_name = ''Accuracy'',
            pred_name = ''preds'', label_name = Some ''labels'', cur_value = 0::int,
            better = (\<lambda>a b. None)\<rparr>),
         (''F1'', \<lparr>class_module = ''texar.torch.run.metric'', class_name = ''F1'',
            pred_name = ''preds'', label_name = Some ''labels'', cur_value = 0,
            better = (\<lambda>a b. if a = b then None else Some (b < a))\<rparr>)]
        (Some [(''Accuracy'', 3), (''F1'', 9)]))
     (AMetricList (MetricList_init
        [(''Accuracy'', \<lparr>class_module = ''texar.torch.run.metric'', class_name = ''Accuracy'',
            pred_name = ''preds'', label_name = Some ''labels'', cur_value = 0::int,
            better = (\<lambda>a b. None)\<rparr>),
         (''F1'', \<lparr>class_module = ''texar.torch.run.metric'', class_name = ''F1'',
            pred_name = ''preds'', label_name = Some ''labels'', cur_value = 0,
            better = (\<lambda>a b. if a = b then None else Some (b < a))\<rparr>)]
        (Some [(''Accuracy'', 5), (''F1'', 4)])))
   = Inr True"
  using gt_lexicographic [THEN conjunct2, THEN conjunct2, rule_format,
    of "''Accuracy''" "''F1''"
       "\<lparr>class_module = ''texar.torch.run.metric'', class_name = ''Accuracy'',
            pred_name = ''preds'', label_name = Some ''labels'', cur_value = 0::int,
            better = (\<lambda>a b. None)\<rparr>" 3 5
       "\<lparr>class_module = ''texar.torch.run.metric'', class_name = ''F1'',
            pred_name = ''preds'', label_name = Some ''labels'', cur_value = 0,
            better = (\<lambda>a b. if a = b then None else Some (b < a))\<rparr>" 9 4]
  by simp

text \<open>
  C2 at a failing input. The registries \<open>[Accuracy]\<close> and \<open>[Accuracy, F1]\<close> have different
  keys, yet \<^verbatim>\<open>zip\<close> stops after the first pair and \<^verbatim>\<open>_compare_metrics\<close> raises nothing:
  \<^verbatim>\<open>__eq__\<close> returns \<^verbatim>\<open>True\<close> and \<^verbatim>\<open>__gt__\<close> returns \<^verbatim>\<open>False\<close>.
\<close>

theorem compare_metrics_truncates:
  "MetricList_eq
     (MetricList_init [(''Accuracy'', \<lparr>class_module = ''texar.torch.run.metric'', class_name = ''Accuracy'',
            pred_name = ''preds'', label_name = Some ''labels'', cur_value = 1::int,
            better = (\<lambda>a b. if a = b then None else Some (b < a))\<rparr>)] None)
     (AMetricList (MetricList_init
        [(''Accuracy'', \<lparr>class_module = ''texar.torch.run.metric'', class_name = ''Accuracy'',
            pred_name = ''preds'', label_name = Some ''labels'', cur_value = 1::int,
            better = (\<lambda>a b. if a = b then None else Some (b < a))\<rparr>),
         (''F1'', \<lparr>class_module = ''texar.torch.run.metric'', class_name = ''F1'',
            pred_name = ''preds'', label_name = Some ''labels'', cur_value = 2,
            better = (\<lambda>a b. if a = b then None else Some (b < a))\<rparr>)] None))
   = Inr True \<and>
   MetricList_gt
     (MetricList_init [(''Accuracy'', \<lparr>class_module = ''texar.torch.run.metric'', class_name = ''Accuracy'',
            pred_name = ''preds'', label_name = Some ''labels'', cur_value = 1::int,
            better = (\<lambda>a b. if a = b then None else Some (b < a))\<rparr>)] None)
     (AMetricList (MetricList_init
        [(''Accuracy'', \<lparr>class_module = ''texar.torch.run.metric'', class_name = ''Accuracy'',
            pred_name = ''preds'', label_name = Some ''labels'', cur_value = 1::int,
            better = (\<lambda>a b. if a = b then None else Some (b < a))\<rparr>),
         (''F1'', \<lparr>class_module = ''texar.torch.run.metric'', class_name = ''F1'',
            pred_name = ''preds'', label_name = Some ''labels'', cur_value = 2,
            better = (\<lambda>a b. if a = b then None else Some (b < a))\<rparr>)] None))
   = Inr False"
  by (simp add: MetricList_eq_def MetricList_gt_def MetricList_init_def priv_compare_metrics_def
      bind_err_def od_get_def od_of_items_def)

text \<open>
  On registries of the same length the check does what its message says: any difference in
  a name or in a class, at any position, raises.
\<close>

lemma compare_pairs_mismatch:
  "length a = length b \<Longrightarrow>
   map (\<lambda>(n, m). (n, class_module m, class_name m)) a \<noteq>
     map (\<lambda>(n, m). (n, class_module m, class_name m)) b \<Longrightarrow>
   compare_pairs a b = Inl (ValueError ''Cannot compare two metric lists with different base metrics'')"
proof (induction a b rule: list_induct2)
  case Nil
  then show ?case by simp
next
  case (Cons x xs y ys)
  obtain n m where x: "x = (n, m)" by (cases x)
  obtain n' m' where y: "y = (n', m')" by (cases y)
  show ?case
  proof (cases "n \<noteq> n' \<or> (class_module m, class_name m) \<noteq> (class_module m', class_name m')")
    case True
    then show ?thesis unfolding x y by simp
  next
    case False
    with Cons.prems have "map (\<lambda>(n, m). (n, class_module m, class_name m)) xs \<noteq>
     map (\<lambda>(n, m). (n, class_module m, class_name m)) ys"
      unfolding x y by simp
    from Cons.IH [OF this] False show ?thesis unfolding x y by simp
  qed
qed

end
